theory Spec2Isabelle
  imports Complex_Main "HOL-Library.Word"
begin


section \<open>JavaScript numbers\<close>

text \<open>
  Every \<^verbatim>\<open>number\<close> of the program is an IEEE 754 binary64 value. A finite value is
  kept as the rational it denotes; the two infinities and NaN are separate constructors.
  The sign of zero is not kept (both zeros are \<open>Fin 0\<close>): the program never divides by
  a value that can be a negative zero for the inputs the theorems below speak about.
\<close>

datatype jsnum = Fin rat | PInf | NInf | NaN

text \<open>The exceptions the program can meet.\<close>

datatype js_error =
  InvalidCharacterError | RangeError | NotSupportedError | TypeError | IndexSizeError

text \<open>\<open>pow2 e\<close> is \<open>2\<close> to the (possibly negative) power \<open>e\<close>.\<close>

definition pow2 :: "int \<Rightarrow> rat" where
  "pow2 e = (if 0 \<le> e then 2 ^ nat e else 1 / 2 ^ nat (- e))"

text \<open>\<open>log2n n\<close> is the position of the highest set bit of \<open>n\<close> (0 for \<open>n < 2\<close>).\<close>

fun log2n :: "nat \<Rightarrow> nat" where
  "log2n n = (if n < 2 then 0 else Suc (log2n (n div 2)))"

declare log2n.simps [simp del]

text \<open>
  \<open>ilog2 x\<close>, for \<open>x > 0\<close>, is the integer \<open>k\<close> with \<open>2^k \<le> x < 2^(k+1)\<close>: the binary
  exponent of \<open>x\<close>. It is found from the bit lengths of numerator and denominator, which
  fix it up to one, and one comparison.
\<close>

definition ilog2 :: "rat \<Rightarrow> int" where
  "ilog2 x = (let (p, q) = quotient_of x;
                  k = int (log2n (nat p)) - int (log2n (nat q))
              in if pow2 k \<le> x then k else k - 1)"

text \<open>Rounding a non-negative rational to the nearest integer, ties to even.\<close>

definition rne :: "rat \<Rightarrow> int" where
  "rne y = (let f = \<lfloor>y\<rfloor>; d = y - of_int f
            in if d < 1 / 2 then f
               else if 1 / 2 < d then f + 1
               else if even f then f else f + 1)"

text \<open>
  \<open>fl_round p emin emax x\<close> rounds the rational \<open>x\<close> to the nearest value of the binary
  format with \<open>p\<close> significant bits, least exponent of the last place \<open>emin\<close> and
  overflow threshold \<open>2^emax\<close> (round to nearest, ties to even; gradual underflow; a
  rounded magnitude of \<open>2^emax\<close> or more is an infinity).
\<close>

definition fl_round :: "nat \<Rightarrow> int \<Rightarrow> int \<Rightarrow> rat \<Rightarrow> jsnum" where
  "fl_round p emin emax x =
     (if x = 0 then Fin 0
      else let a = \<bar>x\<bar>;
               e = max (ilog2 a - (int p - 1)) emin;
               y = of_int (rne (a / pow2 e)) * pow2 e
           in if pow2 emax \<le> y then (if 0 < x then PInf else NInf)
              else Fin (if 0 < x then y else - y))"

text \<open>binary64: the result of every arithmetic operation on numbers.\<close>

definition fl64 :: "rat \<Rightarrow> jsnum" where
  "fl64 = fl_round 53 (- 1074) 1024"

text \<open>binary32: what a store into a \<^verbatim>\<open>Float32Array\<close> keeps.\<close>

definition fl32 :: "rat \<Rightarrow> jsnum" where
  "fl32 = fl_round 24 (- 149) 128"

text \<open>A value is a binary64 (binary32) value when rounding leaves it as it is.\<close>

definition is_double :: "rat \<Rightarrow> bool" where
  "is_double r = (fl64 r = Fin r)"

definition is_float32 :: "rat \<Rightarrow> bool" where
  "is_float32 r = (fl32 r = Fin r)"

subsection \<open>Arithmetic and comparison\<close>

text \<open>
  The operators \<^verbatim>\<open>+ - * /\<close> compute the exact result and round it to binary64; the
  cases with an infinity or NaN follow IEEE 754.
\<close>

fun js_neg :: "jsnum \<Rightarrow> jsnum" where
  "js_neg (Fin a) = Fin (- a)"
| "js_neg PInf = NInf"
| "js_neg NInf = PInf"
| "js_neg NaN = NaN"

fun js_add :: "jsnum \<Rightarrow> jsnum \<Rightarrow> jsnum" where
  "js_add NaN _ = NaN"
| "js_add _ NaN = NaN"
| "js_add (Fin a) (Fin b) = fl64 (a + b)"
| "js_add PInf NInf = NaN"
| "js_add NInf PInf = NaN"
| "js_add PInf _ = PInf"
| "js_add _ PInf = PInf"
| "js_add NInf _ = NInf"
| "js_add _ NInf = NInf"

definition js_sub :: "jsnum \<Rightarrow> jsnum \<Rightarrow> jsnum" where
  "js_sub a b = js_add a (js_neg b)"

text \<open>The infinity of the sign of a non-zero rational.\<close>

definition inf_of :: "rat \<Rightarrow> jsnum" where
  "inf_of s = (if 0 < s then PInf else NInf)"

fun js_mul :: "jsnum \<Rightarrow> jsnum \<Rightarrow> jsnum" where
  "js_mul NaN _ = NaN"
| "js_mul _ NaN = NaN"
| "js_mul (Fin a) (Fin b) = fl64 (a * b)"
| "js_mul (Fin a) PInf = (if a = 0 then NaN else inf_of a)"
| "js_mul (Fin a) NInf = (if a = 0 then NaN else inf_of (- a))"
| "js_mul PInf (Fin b) = (if b = 0 then NaN else inf_of b)"
| "js_mul NInf (Fin b) = (if b = 0 then NaN else inf_of (- b))"
| "js_mul PInf PInf = PInf"
| "js_mul NInf NInf = PInf"
| "js_mul PInf NInf = NInf"
| "js_mul NInf PInf = NInf"

text \<open>Division; a zero divisor counts as positive zero.\<close>

fun js_div :: "jsnum \<Rightarrow> jsnum \<Rightarrow> jsnum" where
  "js_div NaN _ = NaN"
| "js_div _ NaN = NaN"
| "js_div (Fin a) (Fin b) =
     (if b = 0 then (if a = 0 then NaN else inf_of a) else fl64 (a / b))"
| "js_div (Fin a) PInf = Fin 0"
| "js_div (Fin a) NInf = Fin 0"
| "js_div PInf (Fin b) = (if 0 \<le> b then PInf else NInf)"
| "js_div NInf (Fin b) = (if 0 \<le> b then NInf else PInf)"
| "js_div _ _ = NaN"

text \<open>\<^verbatim>\<open><\<close> and \<^verbatim>\<open><=\<close>: false as soon as an operand is NaN.\<close>

fun js_lt :: "jsnum \<Rightarrow> jsnum \<Rightarrow> bool" where
  "js_lt NaN _ = False"
| "js_lt _ NaN = False"
| "js_lt (Fin a) (Fin b) = (a < b)"
| "js_lt _ NInf = False"
| "js_lt NInf _ = True"
| "js_lt PInf _ = False"
| "js_lt _ PInf = True"

fun js_le :: "jsnum \<Rightarrow> jsnum \<Rightarrow> bool" where
  "js_le NaN _ = False"
| "js_le _ NaN = False"
| "js_le a b = (\<not> js_lt b a)"

text \<open>\<^verbatim>\<open>===\<close> on numbers: NaN equals nothing.\<close>

definition js_eq :: "jsnum \<Rightarrow> jsnum \<Rightarrow> bool" where
  "js_eq a b = (a \<noteq> NaN \<and> a = b)"

definition isNaN :: "jsnum \<Rightarrow> bool" where
  "isNaN a = (a = NaN)"

text \<open>\<^verbatim>\<open>a || b\<close> on numbers: \<open>b\<close> when \<open>a\<close> is zero or NaN.\<close>

definition js_or :: "jsnum \<Rightarrow> jsnum \<Rightarrow> jsnum" where
  "js_or a b = (if a = Fin 0 \<or> a = NaN then b else a)"

definition Math_max :: "jsnum \<Rightarrow> jsnum \<Rightarrow> jsnum" where
  "Math_max a b = (if a = NaN \<or> b = NaN then NaN else if js_lt a b then b else a)"

definition Math_min :: "jsnum \<Rightarrow> jsnum \<Rightarrow> jsnum" where
  "Math_min a b = (if a = NaN \<or> b = NaN then NaN else if js_lt b a then b else a)"

fun Math_floor :: "jsnum \<Rightarrow> jsnum" where
  "Math_floor (Fin a) = Fin (of_int \<lfloor>a\<rfloor>)"
| "Math_floor x = x"

subsection \<open>Typed arrays\<close>

text \<open>Truncation toward zero, the integer part every integer conversion starts from.\<close>

definition trunc :: "rat \<Rightarrow> int" where
  "trunc r = (if 0 \<le> r then \<lfloor>r\<rfloor> else \<lceil>r\<rceil>)"

text \<open>
  A store into an \<^verbatim>\<open>Int16Array\<close> (ToInt16): NaN and the infinities become 0, any other
  number is truncated toward zero and taken modulo \<open>2^16\<close>.
\<close>

fun to_int16 :: "jsnum \<Rightarrow> 16 word" where
  "to_int16 (Fin r) = word_of_int (trunc r)"
| "to_int16 _ = 0"

text \<open>A store into a \<^verbatim>\<open>Float32Array\<close> rounds the number to binary32.\<close>

fun to_float32 :: "jsnum \<Rightarrow> jsnum" where
  "to_float32 (Fin r) = fl32 r"
| "to_float32 x = x"

text \<open>
  \<^verbatim>\<open>new Float32Array(n)\<close> for a number \<open>n\<close> (ToIndex): NaN counts as 0, the number is
  truncated, and a negative or too large length throws a \<^verbatim>\<open>RangeError\<close>; the new array
  is filled with zeros. (An engine may refuse a shorter length for lack of memory; the
  model does not.)
\<close>

fun new_Float32Array :: "jsnum \<Rightarrow> js_error + jsnum list" where
  "new_Float32Array (Fin r) =
     (if trunc r < 0 \<or> 2 ^ 53 - 1 < trunc r then Inl RangeError
      else Inr (replicate (nat (trunc r)) (Fin 0)))"
| "new_Float32Array NaN = Inr []"
| "new_Float32Array _ = Inl RangeError"

text \<open>
  Reading a \<^verbatim>\<open>Float32Array\<close> at a number: the element when the number is an index of
  the array, otherwise \<^verbatim>\<open>undefined\<close>, which arithmetic turns into NaN.
\<close>

fun f32_get :: "jsnum list \<Rightarrow> jsnum \<Rightarrow> jsnum" where
  "f32_get xs (Fin r) =
     (if of_int \<lfloor>r\<rfloor> = r \<and> 0 \<le> r \<and> r < of_nat (length xs) then xs ! nat \<lfloor>r\<rfloor> else NaN)"
| "f32_get xs _ = NaN"

text \<open>The length of an array, as a number.\<close>

definition js_length :: "'a list \<Rightarrow> jsnum" where
  "js_length xs = Fin (of_nat (length xs))"

text \<open>
  The conversion of a number to an \<^verbatim>\<open>unsigned long\<close> argument of a platform function:
  NaN and the infinities become 0, any other number is truncated and taken modulo
  \<open>2^32\<close>.
\<close>

fun to_uint32 :: "jsnum \<Rightarrow> nat" where
  "to_uint32 (Fin r) = nat (trunc r mod 2 ^ 32)"
| "to_uint32 _ = 0"

text \<open>Reading an \<^verbatim>\<open>Int16Array\<close>: the signed value, or \<^verbatim>\<open>undefined\<close> (NaN in arithmetic)
  outside the array.\<close>

definition int16_get :: "16 word list \<Rightarrow> nat \<Rightarrow> jsnum" where
  "int16_get a j = (if j < length a then Fin (of_int (sint (a ! j))) else NaN)"


section \<open>Codec: \<^verbatim>\<open>encode\<close> and \<^verbatim>\<open>decode\<close>\<close>

text \<open>
  A JavaScript string is a sequence of 16-bit code units, kept as natural numbers; a
  \<^verbatim>\<open>Uint8Array\<close> is a list of bytes.
\<close>

type_synonym jsstring = "nat list"

text \<open>
  \<^verbatim>\<open>btoa\<close> and \<^verbatim>\<open>atob\<close> are functions of the platform. They are modelled after their
  definition in the HTML standard: \<^verbatim>\<open>btoa\<close> throws on a code unit above \<open>0xFF\<close> and
  otherwise applies base64 (RFC 4648, with padding); \<^verbatim>\<open>atob\<close> is the standard's
  forgiving-base64 decode.
\<close>

definition b64_alphabet :: "nat list" where
  "b64_alphabet =
     map of_char ''ABCDEFGHIJKLMNOPQRSTUVWXYZabcdefghijklmnopqrstuvwxyz0123456789+/''"

definition b64_char :: "nat \<Rightarrow> nat" where
  "b64_char i = b64_alphabet ! i"

fun index_of :: "'a list \<Rightarrow> 'a \<Rightarrow> nat option" where
  "index_of [] c = None"
| "index_of (x # xs) c = (if x = c then Some 0 else map_option Suc (index_of xs c))"

text \<open>Three octets become four 6-bit groups; a last group of one or two octets is
  filled with zero bits.\<close>

fun sextets :: "nat list \<Rightarrow> nat list" where
  "sextets [] = []"
| "sextets [a] = [a div 4, (a mod 4) * 16]"
| "sextets [a, b] = [a div 4, (a mod 4) * 16 + b div 16, (b mod 16) * 4]"
| "sextets (a # b # c # r) =
     [a div 4, (a mod 4) * 16 + b div 16, (b mod 16) * 4 + c div 64, c mod 64] @ sextets r"

definition btoa :: "jsstring \<Rightarrow> js_error + jsstring" where
  "btoa s =
     (if list_ex (\<lambda>c. 255 < c) s then Inl InvalidCharacterError
      else Inr (map b64_char (sextets s) @ replicate ((3 - length s mod 3) mod 3) 61))"

text \<open>Four 6-bit groups become three octets; of a last group of two or three the
  left-over bits are dropped.\<close>

fun octets :: "nat list \<Rightarrow> nat list" where
  "octets (a # b # c # d # r) =
     [a * 4 + b div 16, (b mod 16) * 16 + c div 4, (c mod 4) * 64 + d] @ octets r"
| "octets [a, b, c] = [a * 4 + b div 16, (b mod 16) * 16 + c div 4]"
| "octets [a, b] = [a * 4 + b div 16]"
| "octets _ = []"

definition ascii_whitespace :: "nat \<Rightarrow> bool" where
  "ascii_whitespace c = (c = 9 \<or> c = 10 \<or> c = 12 \<or> c = 13 \<or> c = 32)"

text \<open>When the length is a multiple of four, one or two trailing \<open>=\<close> are removed.\<close>

definition strip_padding :: "jsstring \<Rightarrow> jsstring" where
  "strip_padding s =
     (if length s mod 4 = 0
      then (case rev s of
              c1 # c2 # r \<Rightarrow>
                if c1 = 61 \<and> c2 = 61 then rev r else if c1 = 61 then rev (c2 # r) else s
            | [c1] \<Rightarrow> if c1 = 61 then [] else s
            | [] \<Rightarrow> s)
      else s)"

definition atob :: "jsstring \<Rightarrow> js_error + jsstring" where
  "atob s =
     (let d = strip_padding (filter (\<lambda>c. \<not> ascii_whitespace c) s)
      in if length d mod 4 = 1 then Inl InvalidCharacterError
         else if list_ex (\<lambda>c. index_of b64_alphabet c = None) d then Inl InvalidCharacterError
         else Inr (octets (map (\<lambda>c. the (index_of b64_alphabet c)) d)))"

text \<open>
  \<^verbatim>\<open>encode\<close>: the loop appends \<^verbatim>\<open>String.fromCharCode(bytes[i])\<close> for each byte in turn,
  which is the code unit with the byte's value; then \<^verbatim>\<open>btoa\<close>.
\<close>

definition encode :: "8 word list \<Rightarrow> js_error + jsstring" where
  "encode bytes = btoa (map unat bytes)"

text \<open>
  \<^verbatim>\<open>decode\<close>: \<^verbatim>\<open>atob\<close>, then the loop stores \<^verbatim>\<open>charCodeAt(i)\<close> into a \<^verbatim>\<open>Uint8Array\<close> of
  the string's length; the store keeps the value modulo 256.
\<close>

definition decode :: "jsstring \<Rightarrow> js_error + 8 word list" where
  "decode base64 =
     (case atob base64 of
        Inl e \<Rightarrow> Inl e
      | Inr binaryString \<Rightarrow> Inr (map of_nat binaryString))"

section \<open>Resampling and the outbound chunk\<close>

text \<open>
  \<^verbatim>\<open>resampleLinear\<close>. The loop \<^verbatim>\<open>for (i = 0; i < outputLength; i++)\<close> runs over the
  indices of \<^verbatim>\<open>result\<close>: the array was allocated with \<^verbatim>\<open>outputLength\<close> elements, so
  \<^verbatim>\<open>i < outputLength\<close> holds for exactly these.
\<close>

definition resample_at :: "jsnum list \<Rightarrow> jsnum \<Rightarrow> nat \<Rightarrow> jsnum" where
  "resample_at inputData ratio i =
     (let C1 = js_mul (Fin (of_nat i)) ratio;
          C0 = Math_floor C1;
          C2 = Math_min (js_add C0 (Fin 1)) (js_sub (js_length inputData) (Fin 1))
      in if js_lt C0 (Fin 0) \<or> js_le (js_length inputData) C0 then Fin 0
         else let k = js_sub C1 C0
              in to_float32
                   (js_add (js_mul (f32_get inputData C0) (js_sub (Fin 1) k))
                           (js_mul (f32_get inputData C2) k)))"

definition resampleLinear :: "jsnum list \<Rightarrow> jsnum \<Rightarrow> jsnum \<Rightarrow> js_error + jsnum list" where
  "resampleLinear inputData inputSr outputSr =
     (if js_eq inputSr outputSr then Inr inputData
      else let ratio = js_div inputSr outputSr;
               outputLength = Math_floor (js_div (js_length inputData) ratio)
           in case new_Float32Array outputLength of
                Inl e \<Rightarrow> Inl e
              | Inr result \<Rightarrow>
                  Inr (fold (\<lambda>i res. res[i := resample_at inputData ratio i])
                         [0..<length result] result))"

text \<open>
  The quantising loop of \<^verbatim>\<open>createBlob\<close>: each sample times 32768, clamped by
  \<^verbatim>\<open>Math.max(-32768, Math.min(32767, _))\<close>, stored into an \<^verbatim>\<open>Int16Array\<close>.
\<close>

definition quantize_sample :: "jsnum \<Rightarrow> 16 word" where
  "quantize_sample x =
     to_int16 (Math_max (Fin (- 32768)) (Math_min (Fin 32767) (js_mul x (Fin 32768))))"

definition quantize :: "jsnum list \<Rightarrow> 16 word list" where
  "quantize audioDataToProcess = map quantize_sample audioDataToProcess"

text \<open>
  \<^verbatim>\<open>new Uint8Array(int16.buffer)\<close>: the bytes of the 16-bit values, low byte first
  (the byte order of the platforms the program runs on).
\<close>

definition int16_bytes :: "16 word list \<Rightarrow> 8 word list" where
  "int16_bytes int16 = concat (map (\<lambda>w. [ucast w, ucast (drop_bit 8 w)]) int16)"

text \<open>
  \<^verbatim>\<open>createBlob(data, currentSampleRate)\<close> and the \<^verbatim>\<open>Blob\<close> it returns. The parameter
  \<^verbatim>\<open>data\<close> is \<open>samples\<close> here and the field \<^verbatim>\<open>data\<close> of the result is \<open>blob_data\<close>.
\<close>

record blob =
  blob_data :: jsstring
  mimeType :: string

definition createBlob :: "jsnum list \<Rightarrow> jsnum \<Rightarrow> js_error + blob" where
  "createBlob samples currentSampleRate =
     (case (if \<not> js_eq currentSampleRate (Fin 16000)
            then resampleLinear samples currentSampleRate (Fin 16000)
            else Inr samples) of
        Inl e \<Rightarrow> Inl e
      | Inr audioDataToProcess \<Rightarrow>
          (case encode (int16_bytes (quantize audioDataToProcess)) of
             Inl e \<Rightarrow> Inl e
           | Inr text \<Rightarrow> Inr \<lparr>blob_data = text, mimeType = ''audio/pcm;rate=16000''\<rparr>))"

text \<open>
  The quantiser as the specification words it, \<^verbatim>\<open>round(s * 32768)\<close> clamped to
  \<open>[-32768, 32767]\<close>; it is here only to be compared with the loop of the code.
\<close>

definition quantize_spec :: "rat \<Rightarrow> int" where
  "quantize_spec s = max (- 32768) (min 32767 (round (s * 32768)))"

text \<open>The output length of the resampler as the specification words it,
  \<^verbatim>\<open>floor(len(x) * r2 / r1)\<close>, in exact arithmetic.\<close>

definition resample_length_spec :: "nat \<Rightarrow> rat \<Rightarrow> rat \<Rightarrow> int" where
  "resample_length_spec n r1 r2 = \<lfloor>of_nat n * r2 / r1\<rfloor>"


section \<open>Inbound audio: \<^verbatim>\<open>decodeAudioData\<close>\<close>

text \<open>
  The output device is outside the program. Of an \<^verbatim>\<open>AudioContext\<close> the model keeps the
  clock reading, the sample rate and the limits within which it creates buffers; of an
  \<^verbatim>\<open>AudioBuffer\<close> the sample rate and the samples of each channel.
\<close>

record audio_context =
  currentTime :: jsnum
  ctx_sampleRate :: jsnum
  maxChannels :: nat
  minSampleRate :: rat
  maxSampleRate :: rat

record audio_buffer =
  sampleRate :: jsnum
  channels :: "jsnum list list"

definition buffer_length :: "audio_buffer \<Rightarrow> nat" where
  "buffer_length b = (case channels b of [] \<Rightarrow> 0 | c # _ \<Rightarrow> length c)"

text \<open>\<^verbatim>\<open>AudioBuffer.duration\<close>: the length in frames over the sample rate.\<close>

definition duration :: "audio_buffer \<Rightarrow> jsnum" where
  "duration b = js_div (Fin (of_nat (buffer_length b))) (sampleRate b)"

text \<open>
  \<^verbatim>\<open>createBuffer(numberOfChannels, length, sampleRate)\<close> of the Web Audio API: the
  first two arguments are converted to \<^verbatim>\<open>unsigned long\<close>, the rate to \<^verbatim>\<open>float\<close> (a
  \<^verbatim>\<open>TypeError\<close> when it is not finite); a \<^verbatim>\<open>NotSupportedError\<close> when there is no channel
  or no frame, or a value is outside what the context supports; otherwise a silent
  buffer.
\<close>

definition createBuffer :: "audio_context \<Rightarrow> jsnum \<Rightarrow> jsnum \<Rightarrow> jsnum \<Rightarrow> js_error + audio_buffer" where
  "createBuffer ctx numberOfChannels len rate =
     (case to_float32 rate of
        Fin sr \<Rightarrow>
          if to_uint32 numberOfChannels = 0 \<or> maxChannels ctx < to_uint32 numberOfChannels
             \<or> to_uint32 len = 0 \<or> sr < minSampleRate ctx \<or> maxSampleRate ctx < sr
          then Inl NotSupportedError
          else Inr \<lparr>sampleRate = Fin sr,
                    channels = replicate (to_uint32 numberOfChannels)
                                 (replicate (to_uint32 len) (Fin 0))\<rparr>
      | _ \<Rightarrow> Inl TypeError)"

text \<open>A context on which the program's inbound format, one channel at 24000 Hz, is
  within the supported limits.\<close>

definition supports_inbound :: "audio_context \<Rightarrow> bool" where
  "supports_inbound ctx =
     (1 \<le> maxChannels ctx \<and> minSampleRate ctx \<le> 24000 \<and> 24000 \<le> maxSampleRate ctx)"

text \<open>
  The program's output context, \<^verbatim>\<open>new AudioContext({sampleRate: 24000})\<close>, at a clock
  reading, with the limits every implementation of the Web Audio API has to support at
  least (32 channels, rates from 8000 to 96000 Hz).
\<close>

definition outputAudioContext :: "jsnum \<Rightarrow> audio_context" where
  "outputAudioContext now =
     \<lparr>currentTime = now, ctx_sampleRate = Fin 24000, maxChannels = 32,
      minSampleRate = 8000, maxSampleRate = 96000\<rparr>"

text \<open>
  \<^verbatim>\<open>new Int16Array(data.buffer, data.byteOffset, data.byteLength / 2)\<close>: the bytes read
  as 16-bit values, low byte first; the length is truncated. The byte array is the one
  \<^verbatim>\<open>decode\<close> made, which starts its buffer.
\<close>

definition int16_view :: "8 word list \<Rightarrow> 16 word list" where
  "int16_view bytes =
     map (\<lambda>j. word_cat (bytes ! (2 * j + 1)) (bytes ! (2 * j))) [0..<length bytes div 2]"

text \<open>The sample the inner loop stores at frame \<open>i\<close> of channel \<open>c\<close>.\<close>

definition dequantize_at :: "16 word list \<Rightarrow> nat \<Rightarrow> nat \<Rightarrow> nat \<Rightarrow> jsnum" where
  "dequantize_at dataInt16 numChannels c i =
     to_float32 (js_div (int16_get dataInt16 (i * numChannels + c)) (Fin 32768))"

text \<open>
  The inner loop \<^verbatim>\<open>for (i = 0; i < numFrames; i++)\<close> runs over the naturals below
  \<^verbatim>\<open>numFrames\<close>; a store past the end of the channel leaves it as it is, as does
  \<open>xs[i := v]\<close>.
\<close>

fun frames_bound :: "jsnum \<Rightarrow> nat" where
  "frames_bound (Fin r) = nat \<lceil>r\<rceil>"
| "frames_bound _ = 0"

definition fill_channel :: "16 word list \<Rightarrow> nat \<Rightarrow> jsnum \<Rightarrow> nat \<Rightarrow> jsnum list \<Rightarrow> jsnum list" where
  "fill_channel dataInt16 numChannels numFrames c channelData =
     fold (\<lambda>i ch. ch[i := dequantize_at dataInt16 numChannels c i])
       [0..<frames_bound numFrames] channelData"

text \<open>
  \<^verbatim>\<open>decodeAudioData\<close>. The channel count is a natural number (the program passes 1).
  \<^verbatim>\<open>getChannelData(c)\<close> throws an \<^verbatim>\<open>IndexSizeError\<close> for a channel the buffer does not
  have.
\<close>

definition decodeAudioData ::
    "8 word list \<Rightarrow> audio_context \<Rightarrow> jsnum \<Rightarrow> nat \<Rightarrow> js_error + audio_buffer" where
  "decodeAudioData bytes ctx rate numChannels =
     (let numFrames = js_div (js_div (js_length bytes) (Fin 2)) (Fin (of_nat numChannels))
      in if js_eq numFrames (Fin 0) \<or> isNaN numFrames
         then createBuffer ctx (js_or (Fin (of_nat numChannels)) (Fin 1)) (Fin 1)
                (js_or rate (ctx_sampleRate ctx))
         else (case createBuffer ctx (Fin (of_nat numChannels)) numFrames rate of
                 Inl e \<Rightarrow> Inl e
               | Inr buffer \<Rightarrow>
                   if length (channels buffer) < numChannels then Inl IndexSizeError
                   else Inr (buffer\<lparr>channels :=
                          map (\<lambda>c. fill_channel (int16_view bytes) numChannels numFrames c
                                     (channels buffer ! c)) [0..<numChannels]
                          @ drop numChannels (channels buffer)\<rparr>)))"

section \<open>The playback scheduler of \<^verbatim>\<open>GdmLiveAudio\<close>\<close>

text \<open>
  An \<^verbatim>\<open>AudioBufferSourceNode\<close>: its buffer, the time given to \<^verbatim>\<open>start\<close>, and the clock
  reading at which \<^verbatim>\<open>stop\<close> was called, if it was. The nodes live in a store indexed by
  their identity; the set \<^verbatim>\<open>sources\<close> holds identities, in insertion order.
\<close>

record source_node =
  buffer :: audio_buffer
  startTime :: jsnum
  stopped :: "jsnum option"

datatype session_state = SessionOpen | SessionClosed

record gdm_live_audio =
  isRecording :: bool
  status :: string
  error :: string
  nextStartTime :: jsnum
  sources :: "nat list"
  nodes :: "source_node list"
  mediaStream :: bool
  sourceNode :: bool
  scriptProcessorNode :: bool
  session :: "session_state option"
  pendingTimeouts :: nat

text \<open>The part of a \<^verbatim>\<open>LiveServerMessage\<close> the handler reads: the data of the first
  inline part, if any, and the interruption flag.\<close>

record server_message =
  audio :: "jsstring option"
  interrupted :: bool

text \<open>The component as its field initialisers leave it.\<close>

definition initial_state :: gdm_live_audio where
  "initial_state =
     \<lparr>isRecording = False, status = [], error = [], nextStartTime = Fin 0, sources = [],
      nodes = [], mediaStream = False, sourceNode = False, scriptProcessorNode = False,
      session = None, pendingTimeouts = 0\<rparr>"

definition updateStatus :: "gdm_live_audio \<Rightarrow> string \<Rightarrow> gdm_live_audio" where
  "updateStatus this msg = this\<lparr>status := msg, error := ''''\<rparr>"

text \<open>\<^verbatim>\<open>initAudio\<close>, called once, from the constructor's \<^verbatim>\<open>initClient\<close>.\<close>

definition initAudio :: "gdm_live_audio \<Rightarrow> audio_context \<Rightarrow> gdm_live_audio" where
  "initAudio this ctx = this\<lparr>nextStartTime := currentTime ctx\<rparr>"

text \<open>
  Lines 133 to 142 of \<^verbatim>\<open>onmessage\<close>: a new source node for the buffer is started at
  \<^verbatim>\<open>nextStartTime\<close>, which then advances by the buffer's duration, and the node joins
  \<^verbatim>\<open>sources\<close>. \<^verbatim>\<open>start\<close> throws a \<^verbatim>\<open>RangeError\<close> for a negative time and a
  \<^verbatim>\<open>TypeError\<close> for one that is not finite.
\<close>

definition play :: "gdm_live_audio \<Rightarrow> audio_buffer \<Rightarrow> js_error + gdm_live_audio" where
  "play this audioBuffer =
     (case nextStartTime this of
        Fin t \<Rightarrow>
          if t < 0 then Inl RangeError
          else Inr (this\<lparr>nodes := nodes this @
                              [\<lparr>buffer = audioBuffer, startTime = Fin t, stopped = None\<rparr>],
                          nextStartTime := js_add (Fin t) (duration audioBuffer),
                          sources := sources this @ [length (nodes this)]\<rparr>)
      | _ \<Rightarrow> Inl TypeError)"

text \<open>\<^verbatim>\<open>source.stop()\<close> at clock reading \<open>now\<close>; the first call counts.\<close>

definition stop :: "jsnum \<Rightarrow> source_node \<Rightarrow> source_node" where
  "stop now n = (case stopped n of None \<Rightarrow> n\<lparr>stopped := Some now\<rparr> | Some _ \<Rightarrow> n)"

text \<open>
  Lines 147 to 151: every source of the set is stopped and deleted from the set, then
  \<^verbatim>\<open>nextStartTime\<close> becomes 0. (Deleting the element a \<^verbatim>\<open>for..of\<close> over a \<^verbatim>\<open>Set\<close> is at
  does not skip any other element.)
\<close>

definition onInterrupt :: "gdm_live_audio \<Rightarrow> jsnum \<Rightarrow> gdm_live_audio" where
  "onInterrupt this now =
     (fold (\<lambda>source s. s\<lparr>nodes := (nodes s)[source := stop now (nodes s ! source)],
                          sources := removeAll source (sources s)\<rparr>)
        (sources this) this)\<lparr>nextStartTime := Fin 0\<rparr>"

text \<open>The loop of the sweep alone, for any list of sources to visit (an auxiliary of
  the proofs about \<^verbatim>\<open>onInterrupt\<close>).\<close>

definition sweep :: "jsnum \<Rightarrow> nat list \<Rightarrow> gdm_live_audio \<Rightarrow> gdm_live_audio" where
  "sweep now xs this =
     fold (\<lambda>source s. s\<lparr>nodes := (nodes s)[source := stop now (nodes s ! source)],
                          sources := removeAll source (sources s)\<rparr>) xs this"

text \<open>
  \<^verbatim>\<open>onmessage\<close> is an async function. With audio in the message it runs lines 118 to
  127 and is suspended at the \<^verbatim>\<open>await\<close> of \<^verbatim>\<open>decodeAudioData\<close>, whose body has run to its
  end by then (it awaits nothing); it resumes later, from line 133, on the component as
  the handlers that ran in between have left it. \<open>onmessage_begin\<close> is the first part. It
  gives the component, with \<^verbatim>\<open>nextStartTime\<close> raised to the clock by line 122, and either
  what the handler ended with (the exception of \<^verbatim>\<open>decode\<close>; or nothing, when the message
  has no audio and lines 145 to 152 have run), or the outcome of \<^verbatim>\<open>decodeAudioData\<close> that
  the handler awaits.
\<close>

datatype suspension = Returned "js_error option" | Awaiting "js_error + audio_buffer"

definition onmessage_begin ::
    "gdm_live_audio \<Rightarrow> audio_context \<Rightarrow> server_message \<Rightarrow> gdm_live_audio \<times> suspension" where
  "onmessage_begin this ctx message =
     (case audio message of
        None \<Rightarrow>
          (if interrupted message then onInterrupt this (currentTime ctx) else this,
           Returned None)
      | Some base64 \<Rightarrow>
          let this1 = this\<lparr>nextStartTime := Math_max (nextStartTime this) (currentTime ctx)\<rparr>
          in (case decode base64 of
                Inl e \<Rightarrow> (this1, Returned (Some e))
              | Inr bytes \<Rightarrow> (this1, Awaiting (decodeAudioData bytes ctx (Fin 24000) 1))))"

text \<open>
  The second part, from the \<^verbatim>\<open>await\<close> to the end, on the component and the context as
  they are when the handler resumes: an exception of \<^verbatim>\<open>decodeAudioData\<close> is thrown on;
  otherwise the buffer is played at \<^verbatim>\<open>this.nextStartTime\<close>, which line 140 reads at that
  moment, and lines 145 to 152 follow.
\<close>

definition onmessage_resume ::
    "gdm_live_audio \<Rightarrow> audio_context \<Rightarrow> server_message \<Rightarrow> js_error + audio_buffer
       \<Rightarrow> gdm_live_audio \<times> js_error option" where
  "onmessage_resume this ctx message outcome =
     (case outcome of
        Inl e \<Rightarrow> (this, Some e)
      | Inr audioBuffer \<Rightarrow>
          (case play this audioBuffer of
             Inl e \<Rightarrow> (this, Some e)
           | Inr this2 \<Rightarrow>
               (if interrupted message then onInterrupt this2 (currentTime ctx) else this2,
                None)))"

text \<open>
  \<^verbatim>\<open>onmessage\<close> when no other handler runs while it is suspended: the two parts one
  after the other, on the same context. The result is the state the handler leaves and
  the exception it threw, if any: \<^verbatim>\<open>nextStartTime\<close> is already raised to the clock when
  decoding fails.
\<close>

definition onmessage ::
    "gdm_live_audio \<Rightarrow> audio_context \<Rightarrow> server_message \<Rightarrow> gdm_live_audio \<times> js_error option" where
  "onmessage this ctx message =
     (let interrupt = (\<lambda>s. if interrupted message then onInterrupt s (currentTime ctx) else s)
      in case audio message of
           None \<Rightarrow> (interrupt this, None)
         | Some base64 \<Rightarrow>
             let this1 = this\<lparr>nextStartTime := Math_max (nextStartTime this) (currentTime ctx)\<rparr>
             in (case decode base64 of
                   Inl e \<Rightarrow> (this1, Some e)
                 | Inr bytes \<Rightarrow>
                     (case decodeAudioData bytes ctx (Fin 24000) 1 of
                        Inl e \<Rightarrow> (this1, Some e)
                      | Inr audioBuffer \<Rightarrow>
                          (case play this1 audioBuffer of
                             Inl e \<Rightarrow> (this1, Some e)
                           | Inr this2 \<Rightarrow> (interrupt this2, None)))))"

text \<open>The listener of a source's \<^verbatim>\<open>ended\<close> event deletes it from the set.\<close>

definition on_ended :: "gdm_live_audio \<Rightarrow> nat \<Rightarrow> gdm_live_audio" where
  "on_ended this source = this\<lparr>sources := removeAll source (sources this)\<rparr>"

text \<open>
  \<^verbatim>\<open>stopRecording\<close>. \<^verbatim>\<open>inputAudioContext\<close> is set once, to a context, so
  \<^verbatim>\<open>!this.inputAudioContext\<close> is false.
\<close>

definition stopRecording :: "gdm_live_audio \<Rightarrow> gdm_live_audio" where
  "stopRecording this =
     (if (\<not> isRecording this \<and> \<not> mediaStream this \<and> False)
         \<and> (\<not> mediaStream this \<and> \<not> sourceNode this \<and> \<not> scriptProcessorNode this)
      then updateStatus this ''Recording already stopped or not started.''
      else updateStatus
             ((updateStatus this ''Stopping recording...'')
                \<lparr>isRecording := False, scriptProcessorNode := False, sourceNode := False,
                 mediaStream := False\<rparr>)
             ''Recording stopped. Click Start to begin again.'')"

text \<open>
  \<^verbatim>\<open>reset\<close>: recording stops, the session is closed if there is one, and a timeout is
  set. \<open>reset_timeout\<close> is the callback of the timeout: \<^verbatim>\<open>initSession\<close> starts a new
  connection, which writes no field before the connection is made, and the status is
  updated.
\<close>

definition reset :: "gdm_live_audio \<Rightarrow> gdm_live_audio" where
  "reset this =
     (let s = stopRecording this
      in s\<lparr>session := (case session s of None \<Rightarrow> None | Some _ \<Rightarrow> Some SessionClosed),
           pendingTimeouts := pendingTimeouts s + 1\<rparr>)"

definition reset_timeout :: "gdm_live_audio \<Rightarrow> gdm_live_audio" where
  "reset_timeout this =
     updateStatus (this\<lparr>pendingTimeouts := pendingTimeouts this - 1\<rparr>)
       ''Session cleared and reinitialized.''"

text \<open>
  The life of a source node on the device, which is outside the program, as the Web
  Audio API defines \<^verbatim>\<open>start(when)\<close> and \<^verbatim>\<open>stop()\<close>: a function of the clock. The node is
  scheduled until the clock reaches its start time, then active until its buffer ends;
  a stop that comes before the end cancels it from then on.
\<close>

datatype phase = Scheduled | Active | Finished | Cancelled

definition natural_phase :: "source_node \<Rightarrow> jsnum \<Rightarrow> phase" where
  "natural_phase n t =
     (if js_lt t (startTime n) then Scheduled
      else if js_lt t (js_add (startTime n) (duration (buffer n))) then Active
      else Finished)"

definition phase_at :: "source_node \<Rightarrow> jsnum \<Rightarrow> phase" where
  "phase_at n t =
     (case stopped n of
        None \<Rightarrow> natural_phase n t
      | Some s \<Rightarrow>
          if js_le s t \<and> natural_phase n s \<noteq> Finished then Cancelled else natural_phase n t)"

text \<open>
  The states the handlers keep to: the set holds each source once, and every source in
  it is a node of the store that has not been stopped.
\<close>

definition wf_state :: "gdm_live_audio \<Rightarrow> bool" where
  "wf_state this =
     (distinct (sources this) \<and>
      list_all (\<lambda>source. source < length (nodes this) \<and> stopped (nodes this ! source) = None)
        (sources this))"

text \<open>
  Values for examples: a silent one-channel buffer of \<open>n\<close> frames at 24000 Hz, as
  \<^verbatim>\<open>createBuffer\<close> makes it; the bytes of \<open>n\<close> frames of silence and their base64 text
  (\<^verbatim>\<open>AAA=\<close> for one frame); and the component with one second of silence scheduled at
  clock reading 2.
\<close>

definition silence :: "nat \<Rightarrow> audio_buffer" where
  "silence n = \<lparr>sampleRate = Fin 24000, channels = [replicate n (Fin 0)]\<rparr>"



definition example_state :: gdm_live_audio where
  "example_state =
     initial_state\<lparr>nextStartTime := Fin 3, sources := [0],
                   nodes := [\<lparr>buffer = silence 24000, startTime = Fin 2, stopped = None\<rparr>]\<rparr>"

section \<open>Rounding: powers of two and binary exponents\<close>

lemma pow2_powi: "pow2 e = 2 powi e"
  by (simp add: pow2_def power_int_def inverse_eq_divide power_one_over)

lemma pow2_pos [simp]: "0 < pow2 e"
  by (simp add: pow2_powi)

lemma pow2_neq_0 [simp]: "pow2 e \<noteq> 0"
  by (simp add: pow2_powi)

lemma pow2_nonneg [simp]: "0 \<le> pow2 e"
  by (simp add: pow2_powi)

lemma pow2_0 [simp]: "pow2 0 = 1"
  by (simp add: pow2_def)

lemma pow2_add: "pow2 (a + b) = pow2 a * pow2 b"
  by (simp add: pow2_powi power_int_add)

lemma pow2_diff: "pow2 (a - b) = pow2 a / pow2 b"
  by (simp add: pow2_powi power_int_diff)

lemma pow2_mono: "a \<le> b \<Longrightarrow> pow2 a \<le> pow2 b"
  by (simp add: pow2_powi power_int_increasing)

lemma pow2_strict_mono: "a < b \<Longrightarrow> pow2 a < pow2 b"
  by (simp add: pow2_powi power_int_strict_increasing)

lemma pow2_le_iff: "pow2 a \<le> pow2 b \<longleftrightarrow> a \<le> b"
  by (meson linorder_not_less pow2_mono pow2_strict_mono)

lemma pow2_less_iff: "pow2 a < pow2 b \<longleftrightarrow> a < b"
  by (meson linorder_not_less pow2_mono pow2_strict_mono)

lemma pow2_nat: "pow2 (int n) = 2 ^ n"
  by (simp add: pow2_def)

lemma pow2_of_int: "0 \<le> d \<Longrightarrow> pow2 d = of_int (2 ^ nat d)"
  by (simp add: pow2_def)

lemma log2n_bounds: "0 < n \<Longrightarrow> 2 ^ log2n n \<le> n \<and> n < 2 ^ Suc (log2n n)"
proof (induction n rule: log2n.induct)
  case (1 n)
  show ?case
  proof (cases "n < 2")
    case True
    with 1 show ?thesis by (simp add: log2n.simps)
  next
    case False
    then have "0 < n div 2" by simp
    with 1 False have IH: "2 ^ log2n (n div 2) \<le> n div 2" "n div 2 < 2 ^ Suc (log2n (n div 2))"
      by simp_all
    have eq: "log2n n = Suc (log2n (n div 2))"
      using False by (subst log2n.simps) simp
    from IH show ?thesis unfolding eq by simp linarith
  qed
qed

lemma ilog2_bounds:
  assumes "0 < x"
  shows "pow2 (ilog2 x) \<le> x" and "x < pow2 (ilog2 x + 1)"
proof -
  obtain p q where pq: "quotient_of x = (p, q)" by (cases "quotient_of x")
  then have q: "0 < q" and x: "x = of_int p / of_int q"
    using quotient_of_denom_pos quotient_of_div by blast+
  with assms have p: "0 < p"
    by (simp add: zero_less_divide_iff)
  define lp lq where "lp = log2n (nat p)" and "lq = log2n (nat q)"
  define k where "k = int lp - int lq"
  have "2 ^ lp \<le> nat p" "nat p < 2 ^ Suc lp" "2 ^ lq \<le> nat q" "nat q < 2 ^ Suc lq"
    using log2n_bounds [of "nat p"] log2n_bounds [of "nat q"] p q by (simp_all add: lp_def lq_def)
  then have "(of_nat (2 ^ lp) :: rat) \<le> of_nat (nat p)" "(of_nat (nat p) :: rat) < of_nat (2 ^ Suc lp)"
    "(of_nat (2 ^ lq) :: rat) \<le> of_nat (nat q)" "(of_nat (nat q) :: rat) < of_nat (2 ^ Suc lq)"
    by (simp_all only: of_nat_le_iff of_nat_less_iff)
  moreover have "(of_nat (nat p) :: rat) = of_int p" "(of_nat (nat q) :: rat) = of_int q"
    using p q by simp_all
  ultimately have b: "(2::rat) ^ lp \<le> of_int p" "(of_int p :: rat) < 2 ^ Suc lp"
    "(2::rat) ^ lq \<le> of_int q" "(of_int q :: rat) < 2 ^ Suc lq"
    by simp_all
  have qpos: "(0::rat) < of_int q" using q by simp
  have ppos: "(0::rat) \<le> of_int p" using p by simp
  have lo: "pow2 (k - 1) \<le> x"
  proof -
    have "pow2 (k - 1) = 2 ^ lp / 2 ^ Suc lq"
      by (simp add: k_def pow2_diff pow2_nat pow2_powi power_int_diff)
    also have "\<dots> \<le> of_int p / of_int q"
      by (rule frac_le) (use b qpos ppos in simp_all)
    finally show ?thesis by (simp add: x)
  qed
  have hi: "x < pow2 (k + 1)"
  proof -
    have "of_int p / of_int q < (2::rat) ^ Suc lp / 2 ^ lq"
      by (rule frac_less) (use b qpos ppos in simp_all)
    also have "\<dots> = pow2 (k + 1)"
      by (simp add: k_def pow2_powi power_int_diff power_int_add)
    finally show ?thesis by (simp add: x)
  qed
  have il: "ilog2 x = (if pow2 k \<le> x then k else k - 1)"
    by (simp add: ilog2_def pq k_def lp_def lq_def Let_def)
  show "pow2 (ilog2 x) \<le> x"
    using lo by (simp add: il)
  show "x < pow2 (ilog2 x + 1)"
    using hi by (simp add: il)
qed

lemma ilog2_less: "0 < x \<Longrightarrow> x < pow2 k \<Longrightarrow> ilog2 x < k"
  using ilog2_bounds(1) [of x] by (meson le_less_trans pow2_less_iff)

lemma ilog2_ge: "0 < x \<Longrightarrow> pow2 k \<le> x \<Longrightarrow> k \<le> ilog2 x"
  using ilog2_bounds(2) [of x] by (metis le_less_trans pow2_less_iff zless_add1_eq linorder_not_less order_less_le)

subsection \<open>Rounding to the nearest integer\<close>

lemma rne_of_int [simp]: "rne (of_int n) = n"
  by (simp add: rne_def)

lemma rne_ge_floor: "\<lfloor>y\<rfloor> \<le> rne y"
  by (simp add: rne_def Let_def)

lemma rne_le_floor1: "rne y \<le> \<lfloor>y\<rfloor> + 1"
  by (simp add: rne_def Let_def)

lemma rne_ge: "of_int n \<le> y \<Longrightarrow> n \<le> rne y"
  using rne_ge_floor [of y] by (meson le_floor_iff order_trans)

lemma rne_le: "y \<le> of_int n \<Longrightarrow> rne y \<le> n"
proof (cases "y = of_int n")
  case True
  then show ?thesis by simp
next
  case False
  assume "y \<le> of_int n"
  with False have "y < of_int n" by simp
  then have "\<lfloor>y\<rfloor> < n" by (simp add: floor_less_iff)
  with rne_le_floor1 [of y] show ?thesis by linarith
qed

lemma rne_error: "\<bar>of_int (rne y) - y\<bar> \<le> 1 / 2"
proof -
  have "of_int \<lfloor>y\<rfloor> \<le> y" "y < of_int \<lfloor>y\<rfloor> + 1"
    by linarith+
  then show ?thesis
    by (auto simp: rne_def Let_def abs_le_iff)
qed

subsection \<open>Rounding to a binary format\<close>

text \<open>The exponent of the last place that \<open>fl_round\<close> uses for a positive \<open>x\<close>.\<close>

lemma fl_round_pos:
  assumes "0 < x"
  shows "fl_round p emin emax x =
    (let e = max (ilog2 x - (int p - 1)) emin; y = of_int (rne (x / pow2 e)) * pow2 e
     in if pow2 emax \<le> y then PInf else Fin y)"
  using assms by (simp add: fl_round_def Let_def)

lemma fl_round_uminus: "fl_round p emin emax (- x) = js_neg (fl_round p emin emax x)"
  by (cases "x = 0"; cases "0 < x") (auto simp: fl_round_def Let_def)

text \<open>A value \<open>m * 2^e\<close> within the format is left as it is.\<close>

lemma fl_round_exact_pos:
  assumes x: "x = of_int m * pow2 e" and m: "0 < m" "m < 2 ^ p"
    and e: "emin \<le> e" and hi: "x < pow2 emax"
  shows "fl_round p emin emax x = Fin x"
proof -
  have xpos: "0 < x" using m by (simp add: x)
  define e' where "e' = max (ilog2 x - (int p - 1)) emin"
  have "x < of_int (2 ^ p) * pow2 e"
    using m by (simp add: x)
  also have "\<dots> = pow2 (int p + e)"
    by (simp add: pow2_add pow2_nat)
  finally have "ilog2 x < int p + e"
    by (rule ilog2_less [OF xpos])
  with e have le: "e' \<le> e" by (simp add: e'_def)
  then have "pow2 e = pow2 e' * of_int (2 ^ nat (e - e'))"
    using pow2_add [of e' "e - e'"] by (simp add: pow2_of_int)
  then have "x / pow2 e' = of_int (m * 2 ^ nat (e - e'))"
    by (simp add: x)
  then have "of_int (rne (x / pow2 e')) * pow2 e' = x"
    by (metis nonzero_divide_eq_eq pow2_pos less_irrefl rne_of_int)
  with hi xpos show ?thesis
    by (simp add: fl_round_pos e'_def Let_def)
qed

lemma fl_round_exact:
  assumes x: "x = of_int m * pow2 e" and m: "\<bar>m\<bar> < 2 ^ p"
    and e: "emin \<le> e" and hi: "\<bar>x\<bar> < pow2 emax"
  shows "fl_round p emin emax x = Fin x"
proof -
  consider "m = 0" | "0 < m" | "m < 0" by linarith
  then show ?thesis
  proof cases
    case 1
    then show ?thesis by (simp add: x fl_round_def)
  next
    case 2
    with assms show ?thesis by (intro fl_round_exact_pos [of x m e]) simp_all
  next
    case 3
    then have "0 < - m" "- x = of_int (- m) * pow2 e" "- m < 2 ^ p" "- x < pow2 emax"
      using m hi by (simp_all add: x)
    then have "fl_round p emin emax (- x) = Fin (- x)"
      using e by (intro fl_round_exact_pos [of "- x" "- m" e]) simp_all
    then show ?thesis
      by (cases "fl_round p emin emax x") (simp_all add: fl_round_uminus)
  qed
qed

text \<open>Conversely, a positive value that rounding leaves alone is some \<open>m * 2^e\<close>.\<close>

lemma fl_round_fixed_pos:
  assumes "fl_round p emin emax x = Fin x" and "0 < x"
  obtains m e where "x = of_int m * pow2 e" "0 < m" "m \<le> 2 ^ p" "emin \<le> e" "x < pow2 emax"
proof -
  define e where "e = max (ilog2 x - (int p - 1)) emin"
  define m where "m = rne (x / pow2 e)"
  from assms have y: "of_int m * pow2 e = x" and lt: "x < pow2 emax"
    by (auto simp: fl_round_pos e_def m_def Let_def split: if_splits)
  have "0 < m"
    using y \<open>0 < x\<close> by (metis of_int_0_less_iff pow2_pos zero_less_mult_pos2)
  moreover have "m \<le> 2 ^ p"
  proof -
    have "x < pow2 (ilog2 x + 1)" using ilog2_bounds(2) [OF \<open>0 < x\<close>] .
    also have "\<dots> \<le> pow2 (e + int p)"
      by (rule pow2_mono) (simp add: e_def)
    finally have "x / pow2 e \<le> of_int (2 ^ p)"
      by (simp add: pow2_add pow2_nat pos_divide_le_eq mult.commute)
    then show ?thesis unfolding m_def by (rule rne_le)
  qed
  moreover have "emin \<le> e" by (simp add: e_def)
  ultimately show ?thesis using that y lt by blast
qed

text \<open>Rounding to the multiples of \<open>2^e\<close> does not cross a power of two \<open>2^k\<close>, \<open>k \<ge> e\<close>.\<close>

lemma grid_round_bounds:
  assumes "e \<le> k"
  shows "pow2 k \<le> x \<Longrightarrow> pow2 k \<le> of_int (rne (x / pow2 e)) * pow2 e"
    and "x \<le> pow2 k \<Longrightarrow> of_int (rne (x / pow2 e)) * pow2 e \<le> pow2 k"
proof -
  have k: "pow2 k = of_int (2 ^ nat (k - e)) * pow2 e"
    using assms pow2_add [of "k - e" e] by (simp add: pow2_of_int)
  {
    assume "pow2 k \<le> x"
    then have "of_int (2 ^ nat (k - e)) \<le> x / pow2 e"
      by (simp add: k pos_le_divide_eq)
    then have "2 ^ nat (k - e) \<le> rne (x / pow2 e)" by (rule rne_ge)
    then have "(of_int (2 ^ nat (k - e)) :: rat) \<le> of_int (rne (x / pow2 e))"
      by (simp only: of_int_le_iff)
    then show "pow2 k \<le> of_int (rne (x / pow2 e)) * pow2 e"
      unfolding k by (rule mult_right_mono) simp
  }
  {
    assume "x \<le> pow2 k"
    then have "x / pow2 e \<le> of_int (2 ^ nat (k - e))"
      by (simp add: k pos_divide_le_eq)
    then have "rne (x / pow2 e) \<le> 2 ^ nat (k - e)" by (rule rne_le)
    then have "(of_int (rne (x / pow2 e)) :: rat) \<le> of_int (2 ^ nat (k - e))"
      by (simp only: of_int_le_iff)
    then show "of_int (rne (x / pow2 e)) * pow2 e \<le> pow2 k"
      unfolding k by (rule mult_right_mono) simp
  }
qed

lemma fl_round_bounds:
  assumes "0 < x" and lo: "pow2 lo \<le> x" and hi: "x \<le> pow2 hi"
    and "emin \<le> lo" and "hi < emax" and "0 < p"
  obtains y where "fl_round p emin emax x = Fin y" "pow2 lo \<le> y" "y \<le> pow2 hi"
proof -
  define e where "e = max (ilog2 x - (int p - 1)) emin"
  define y where "y = of_int (rne (x / pow2 e)) * pow2 e"
  have L: "lo \<le> ilog2 x" using lo \<open>0 < x\<close> by (simp add: ilog2_ge)
  have "pow2 (ilog2 x) \<le> pow2 hi"
    using ilog2_bounds(1) [OF \<open>0 < x\<close>] hi by linarith
  then have H: "ilog2 x \<le> hi" by (simp add: pow2_le_iff)
  have e: "e \<le> ilog2 x"
    using L \<open>emin \<le> lo\<close> \<open>0 < p\<close> by (simp add: e_def)
  have "pow2 (ilog2 x) \<le> y"
    unfolding y_def using e ilog2_bounds(1) [OF \<open>0 < x\<close>] by (rule grid_round_bounds(1))
  with L have 1: "pow2 lo \<le> y"
    by (meson order_trans pow2_mono)
  have 2: "y \<le> pow2 hi"
    unfolding y_def using e H hi by (intro grid_round_bounds(2)) simp_all
  have "pow2 hi < pow2 emax" using \<open>hi < emax\<close> by (rule pow2_strict_mono)
  with 2 have "\<not> pow2 emax \<le> y" by simp
  then have "fl_round p emin emax x = Fin y"
    using \<open>0 < x\<close> by (simp add: fl_round_pos e_def y_def Let_def)
  with 1 2 show ?thesis using that by blast
qed

text \<open>In the normal range the relative error of rounding is at most \<open>2^-p\<close>.\<close>

lemma fl_round_error:
  assumes "0 < x" and normal: "pow2 (emin + int p - 1) \<le> x" and "0 < p"
    and y: "fl_round p emin emax x = Fin y"
  shows "\<bar>y - x\<bar> \<le> x / 2 ^ p"
proof -
  define e where "e = ilog2 x - (int p - 1)"
  have "emin + int p - 1 \<le> ilog2 x"
    using normal \<open>0 < x\<close> by (rule ilog2_ge [rotated])
  then have e: "max (ilog2 x - (int p - 1)) emin = e"
    by (simp add: e_def)
  from y have yeq: "y = of_int (rne (x / pow2 e)) * pow2 e"
    using \<open>0 < x\<close> by (simp add: fl_round_pos e Let_def split: if_splits)
  have "y - x = (of_int (rne (x / pow2 e)) - x / pow2 e) * pow2 e"
    by (simp add: yeq left_diff_distrib)
  then have "\<bar>y - x\<bar> = \<bar>of_int (rne (x / pow2 e)) - x / pow2 e\<bar> * pow2 e"
    by (simp add: abs_mult)
  also have "\<dots> \<le> (1 / 2) * pow2 e"
    by (intro mult_right_mono rne_error) simp
  also have "\<dots> = pow2 (ilog2 x) / 2 ^ p"
  proof -
    have "pow2 (ilog2 x) = pow2 e * pow2 (int p - 1)"
      using pow2_add [of e "int p - 1"] by (simp add: e_def)
    moreover have "pow2 (int p) = pow2 (int p - 1) * 2"
      using pow2_add [of "int p - 1" 1] by (simp add: pow2_def)
    ultimately show ?thesis
      by (simp add: pow2_nat [symmetric])
  qed
  also have "\<dots> \<le> x / 2 ^ p"
    using ilog2_bounds(1) [OF \<open>0 < x\<close>] by (simp add: divide_right_mono)
  finally show ?thesis .
qed

subsection \<open>binary64 and binary32 values\<close>

lemma fl64_int: "\<bar>n\<bar> < 2 ^ 53 \<Longrightarrow> fl64 (of_int n) = Fin (of_int n)"
proof -
  assume n: "\<bar>n\<bar> < 2 ^ 53"
  then have "\<bar>of_int n :: rat\<bar> < of_int (2 ^ 53)"
    by (simp only: of_int_abs [symmetric] of_int_less_iff)
  also have "\<dots> = pow2 53" by (simp add: pow2_def)
  also have "\<dots> < pow2 1024" by (rule pow2_strict_mono) simp
  finally show ?thesis
    unfolding fl64_def using n by (intro fl_round_exact [of _ n 0]) simp_all
qed

lemma fl32_int: "\<bar>n\<bar> < 2 ^ 24 \<Longrightarrow> fl32 (of_int n) = Fin (of_int n)"
proof -
  assume n: "\<bar>n\<bar> < 2 ^ 24"
  then have "\<bar>of_int n :: rat\<bar> < of_int (2 ^ 24)"
    by (simp only: of_int_abs [symmetric] of_int_less_iff)
  also have "\<dots> = pow2 24" by (simp add: pow2_def)
  also have "\<dots> < pow2 128" by (rule pow2_strict_mono) simp
  finally show ?thesis
    unfolding fl32_def using n by (intro fl_round_exact [of _ n 0]) simp_all
qed

lemma fl64_nat: "n < 2 ^ 53 \<Longrightarrow> fl64 (of_nat n) = Fin (of_nat n)"
  using fl64_int [of "int n"] by simp

text \<open>A 16-bit sample over 32768 is a binary32 value, hence also a binary64 value.\<close>

lemma sample_exact:
  assumes "\<bar>v\<bar> \<le> 32768"
  shows "fl64 (of_int v / 32768) = Fin (of_int v / 32768)"
    and "fl32 (of_int v / 32768) = Fin (of_int v / 32768)"
proof -
  have x: "of_int v / 32768 = of_int v * pow2 (- 15)"
    by (simp add: pow2_def)
  have "\<bar>of_int v / 32768 :: rat\<bar> \<le> 1"
    using assms by (simp add: abs_le_iff)
  moreover have "(1::rat) < pow2 128" "(1::rat) < pow2 1024"
    using pow2_strict_mono [of 0 128] pow2_strict_mono [of 0 1024] by simp_all
  ultimately have b: "\<bar>of_int v / 32768 :: rat\<bar> < pow2 128" "\<bar>of_int v / 32768 :: rat\<bar> < pow2 1024"
    by linarith+
  show "fl64 (of_int v / 32768) = Fin (of_int v / 32768)"
    unfolding fl64_def using assms b by (intro fl_round_exact [OF x]) simp_all
  show "fl32 (of_int v / 32768) = Fin (of_int v / 32768)"
    unfolding fl32_def using assms b by (intro fl_round_exact [OF x]) simp_all
qed

lemma is_float32_uminus: "is_float32 (- r) = is_float32 r"
  unfolding is_float32_def fl32_def fl_round_uminus
  by (cases "fl_round 24 (- 149) 128 r") auto

text \<open>A binary32 value times a power of two is a binary64 value: the product in the
  quantising loop is exact.\<close>

lemma float32_scaled_pos:
  assumes "is_float32 r" and "0 < r" and "0 \<le> k" and "k \<le> 800"
  shows "fl64 (r * pow2 k) = Fin (r * pow2 k)"
proof -
  from assms(1) have "fl_round 24 (- 149) 128 r = Fin r"
    by (simp add: is_float32_def fl32_def)
  then obtain m e where me: "r = of_int m * pow2 e" "0 < m" "m \<le> 2 ^ 24" "- 149 \<le> e" "r < pow2 128"
    using \<open>0 < r\<close> by (rule fl_round_fixed_pos)
  have x: "r * pow2 k = of_int m * pow2 (e + k)"
    by (simp add: me(1) pow2_add)
  have "r * pow2 k < pow2 128 * pow2 k"
    using me(5) by simp
  also have "\<dots> = pow2 (128 + k)" by (simp add: pow2_add)
  also have "\<dots> \<le> pow2 1023" using \<open>k \<le> 800\<close> by (intro pow2_mono) simp
  also have "\<dots> < pow2 1024" by (rule pow2_strict_mono) simp
  finally have "\<bar>r * pow2 k\<bar> < pow2 1024"
    using \<open>0 < r\<close> by simp
  then show ?thesis
    unfolding fl64_def using me assms by (intro fl_round_exact [OF x]) simp_all
qed

lemma float32_scaled:
  assumes "is_float32 r" and "0 \<le> k" and "k \<le> 800"
  shows "fl64 (r * pow2 k) = Fin (r * pow2 k)"
proof -
  consider "r = 0" | "0 < r" | "0 < - r" by linarith
  then show ?thesis
  proof cases
    case 1
    then show ?thesis by (simp add: fl64_def fl_round_def)
  next
    case 2
    show ?thesis using assms(1) 2 assms(2,3) by (rule float32_scaled_pos)
  next
    case 3
    from assms(1) have "is_float32 (- r)" by (simp add: is_float32_uminus)
    from this 3 assms(2,3) have "fl64 (- r * pow2 k) = Fin (- r * pow2 k)"
      by (rule float32_scaled_pos)
    then have "js_neg (fl64 (r * pow2 k)) = Fin (- (r * pow2 k))"
      by (simp add: fl64_def fl_round_uminus [symmetric])
    then show ?thesis
      by (cases "fl64 (r * pow2 k)") simp_all
  qed
qed

lemma float32_times_32768: "is_float32 r \<Longrightarrow> fl64 (r * 32768) = Fin (r * 32768)"
  using float32_scaled [of r 15] by (simp add: pow2_def)

subsection \<open>Words\<close>

lemma sint_to_int16: "- 32768 \<le> n \<Longrightarrow> n \<le> 32767 \<Longrightarrow> sint (word_of_int n :: 16 word) = n"
  by (simp add: sint_sbintrunc' signed_take_bit_int_eq_self)

lemma word_cat_bytes: "word_cat (ucast (drop_bit 8 w) :: 8 word) (ucast w :: 8 word) = (w :: 16 word)"
  by (rule bit_word_eqI) (auto simp: bit_simps)

lemma int16_bytes_single: "int16_view (int16_bytes [w]) = [w]"
  by (simp add: int16_view_def int16_bytes_def word_cat_bytes)

lemma rne_unique: "\<bar>y - of_int n\<bar> < 1 / 2 \<Longrightarrow> rne y = n"
proof -
  assume "\<bar>y - of_int n\<bar> < 1 / 2"
  with rne_error [of y] have "\<bar>(of_int (rne y) :: rat) - of_int n\<bar> < 1" by linarith
  then have "\<bar>rne y - n\<bar> < 1"
    by (metis of_int_abs of_int_diff of_int_less_1_iff)
  then show ?thesis by linarith
qed

text \<open>A way to check one rounding: the nearest value \<open>m * 2^e\<close> with a full significand.\<close>

lemma fl_round_nearest:
  assumes "pow2 (e + int p - 1) \<le> x" and "x < pow2 (e + int p)"
    and "\<bar>x - of_int m * pow2 e\<bar> < pow2 e / 2"
    and "emin \<le> e" and "of_int m * pow2 e < pow2 emax" and "0 < p"
  shows "fl_round p emin emax x = Fin (of_int m * pow2 e)"
proof -
  have xpos: "0 < x" using assms(1) pow2_pos [of "e + int p - 1"] by linarith
  have "e + int p - 1 \<le> ilog2 x" using xpos assms(1) by (rule ilog2_ge)
  moreover have "ilog2 x < e + int p" using xpos assms(2) by (rule ilog2_less)
  ultimately have "max (ilog2 x - (int p - 1)) emin = e"
    using assms(4) by simp
  moreover have "rne (x / pow2 e) = m"
  proof (rule rne_unique)
    have "x / pow2 e - of_int m = (x - of_int m * pow2 e) / pow2 e"
      by (simp add: diff_divide_distrib)
    then have "\<bar>x / pow2 e - of_int m\<bar> = \<bar>x - of_int m * pow2 e\<bar> / pow2 e"
      by simp
    also have "\<dots> < (pow2 e / 2) / pow2 e"
      using assms(3) by (simp add: divide_strict_right_mono)
    finally show "\<bar>x / pow2 e - of_int m\<bar> < 1 / 2" by simp
  qed
  ultimately show ?thesis
    using xpos assms(5) by (simp add: fl_round_pos Let_def)
qed

section \<open>The codec round trip\<close>

lemma distinct_alphabet: "distinct b64_alphabet"
  by (simp add: b64_alphabet_def)

lemma length_alphabet: "length b64_alphabet = 64"
  by (simp add: b64_alphabet_def)

lemma pad_notin_alphabet: "61 \<notin> set b64_alphabet"
  by (simp add: b64_alphabet_def)

lemma whitespace_notin_alphabet: "c \<in> set b64_alphabet \<Longrightarrow> \<not> ascii_whitespace c"
  by (auto simp add: b64_alphabet_def ascii_whitespace_def)

lemma index_of_nth: "distinct xs \<Longrightarrow> i < length xs \<Longrightarrow> index_of xs (xs ! i) = Some i"
proof (induction xs arbitrary: i)
  case Nil
  then show ?case by simp
next
  case (Cons x xs)
  show ?case
  proof (cases i)
    case 0
    then show ?thesis by simp
  next
    case (Suc j)
    with Cons.prems have "xs ! j \<in> set xs" "x \<notin> set xs" "distinct xs" "j < length xs"
      by auto
    with Cons.IH [of j] Suc show ?thesis by auto
  qed
qed

lemma index_of_b64_char: "i < 64 \<Longrightarrow> index_of b64_alphabet (b64_char i) = Some i"
  unfolding b64_char_def
  by (rule index_of_nth) (simp_all add: distinct_alphabet length_alphabet)

lemma b64_char_in_alphabet: "i < 64 \<Longrightarrow> b64_char i \<in> set b64_alphabet"
  by (simp add: b64_char_def length_alphabet)

text \<open>The bit arithmetic: regrouping the 6-bit groups gives the octets back.\<close>

lemma octets_sextets: "\<forall>x\<in>set s. x < 256 \<Longrightarrow> octets (sextets s) = s"
proof (induction s rule: sextets.induct)
  case (3 a b)
  then have "a < 256" "b < 256" by simp_all
  then show ?case by simp
next
  case (4 a b c r)
  then have "a < 256" "b < 256" "c < 256" "octets (sextets r) = r" by simp_all
  then show ?case by simp
qed simp_all

lemma sextet_bounds:
  fixes a b c :: nat
  assumes "a < 256" "b < 256" "c < 256"
  shows "a div 4 < 64" "a mod 4 * 16 < 64" "a mod 4 * 16 + b div 16 < 64"
    "b mod 16 * 4 < 64" "b mod 16 * 4 + c div 64 < 64" "c mod 64 < 64"
proof -
  have 1: "a mod 4 < 4" "b mod 16 < 16" by simp_all
  have 2: "b div 16 < 16" "c div 64 < 4" "a div 4 < 64"
    using assms by (simp_all add: div_less_iff_less_mult)
  show "a div 4 < 64" by (rule 2)
  show "a mod 4 * 16 < 64" using 1 by linarith
  show "a mod 4 * 16 + b div 16 < 64" using 1 2 by linarith
  show "b mod 16 * 4 < 64" using 1 by linarith
  show "b mod 16 * 4 + c div 64 < 64" using 1 2 by linarith
  show "c mod 64 < 64" by simp
qed

lemma sextets_lt_64: "\<forall>x\<in>set s. x < 256 \<Longrightarrow> \<forall>y\<in>set (sextets s). y < 64"
proof (induction s rule: sextets.induct)
  case (2 a)
  then have "a < 256" by simp
  from sextet_bounds [OF this this this] show ?case by simp
next
  case (3 a b)
  then have "a < 256" "b < 256" by simp_all
  from sextet_bounds [OF this this(2)] show ?case by simp
next
  case (4 a b c r)
  then have "a < 256" "b < 256" "c < 256" and r: "\<forall>y\<in>set (sextets r). y < 64" by simp_all
  from sextet_bounds [OF this(1-3)] r show ?case by simp
qed simp

lemma length_sextets_padded:
  "(length (sextets s) + (3 - length s mod 3) mod 3) mod 4 = 0"
proof (induction s rule: sextets.induct)
  case (4 a b c r)
  have "length (a # b # c # r) = length r + 3"
    by simp
  then have "length (a # b # c # r) mod 3 = length r mod 3"
    by (metis mod_add_self2)
  moreover have "length (sextets (a # b # c # r)) = length (sextets r) + 4"
    by simp
  ultimately show ?case using 4 by (metis add.commute add.left_commute mod_add_self2)
qed simp_all

lemma length_sextets_mod4: "length (sextets s) mod 4 \<noteq> 1"
  by (induction s rule: sextets.induct) simp_all

text \<open>The padding that \<^verbatim>\<open>btoa\<close> appends is what \<^verbatim>\<open>atob\<close> removes.\<close>

lemma strip_padding_append:
  assumes "61 \<notin> set cs" and "k \<le> 2" and "(length cs + k) mod 4 = 0"
  shows "strip_padding (cs @ replicate k 61) = cs"
proof -
  consider "k = 0" | "k = 1" | "k = 2" using assms(2) by linarith
  then show ?thesis
  proof cases
    case 1
    with assms show ?thesis
      by (cases "rev cs") (auto simp: strip_padding_def split: list.splits)
  next
    case 2
    with assms show ?thesis
      by (cases "rev cs") (auto simp: strip_padding_def split: list.splits)
  next
    case 3
    with assms show ?thesis
      by (simp add: strip_padding_def numeral_2_eq_2)
  qed
qed

lemma atob_btoa:
  assumes "\<forall>x\<in>set s. x < 256"
  shows "btoa s = Inr (map b64_char (sextets s) @ replicate ((3 - length s mod 3) mod 3) 61)"
    and "atob (map b64_char (sextets s) @ replicate ((3 - length s mod 3) mod 3) 61) = Inr s"
proof -
  let ?cs = "map b64_char (sextets s)"
  let ?k = "(3 - length s mod 3) mod 3"
  from assms show "btoa s = Inr (?cs @ replicate ?k 61)"
    by (auto simp: btoa_def list_ex_iff)
  have lt: "\<forall>y\<in>set (sextets s). y < 64"
    using assms by (rule sextets_lt_64)
  then have mem: "set ?cs \<subseteq> set b64_alphabet"
    by (auto simp: b64_char_in_alphabet)
  then have nopad: "61 \<notin> set ?cs"
    using pad_notin_alphabet by blast
  have nows: "filter (\<lambda>c. \<not> ascii_whitespace c) (?cs @ replicate ?k 61) = ?cs @ replicate ?k 61"
    using mem whitespace_notin_alphabet by (auto simp: filter_id_conv ascii_whitespace_def)
  have strip: "strip_padding (?cs @ replicate ?k 61) = ?cs"
    using nopad length_sextets_padded [of s] by (intro strip_padding_append) simp_all
  have len: "length ?cs mod 4 \<noteq> 1"
    using length_sextets_mod4 [of s] by simp
  have idx: "map (\<lambda>c. the (index_of b64_alphabet c)) ?cs = sextets s"
    using lt by (simp add: map_idI index_of_b64_char)
  have ok: "\<not> list_ex (\<lambda>c. index_of b64_alphabet c = None) ?cs"
    using lt by (auto simp: list_ex_iff index_of_b64_char)
  show "atob (?cs @ replicate ?k 61) = Inr s"
    unfolding atob_def nows strip Let_def using len ok idx octets_sextets [OF assms]
    by simp
qed

lemma unat_bytes_lt_256: "\<forall>x\<in>set (map unat (b :: 8 word list)). x < 256"
proof
  fix x assume "x \<in> set (map unat b)"
  then obtain w :: "8 word" where "x = unat w" by auto
  then show "x < 256" using unsigned_less [of w] by simp
qed

lemma encode_total: "\<exists>t. encode b = Inr t"
  using atob_btoa(1) [OF unat_bytes_lt_256 [of b]] by (simp add: encode_def)

text \<open>
  Claim C2. For every byte sequence \<open>b\<close>, \<^verbatim>\<open>encode\<close> returns a text, and \<^verbatim>\<open>decode\<close> of
  that text returns exactly \<open>b\<close>.
\<close>

theorem decode_encode_roundtrip: "\<exists>t. encode b = Inr t \<and> decode t = Inr b"
proof -
  have "map of_nat (map unat b) = b"
    by (simp add: map_idI)
  with atob_btoa [OF unat_bytes_lt_256 [of b]] show ?thesis
    by (simp add: encode_def decode_def)
qed

text \<open>The round trip on the two bytes of \<^verbatim>\<open>Hi\<close>, whose text is \<^verbatim>\<open>SGk=\<close>.\<close>

theorem decode_encode_roundtrip_witness:
  "encode [72, 105] = Inr [83, 71, 107, 61] \<and> decode [83, 71, 107, 61] = Inr [72, 105]"
proof -
  have enc: "encode [72, 105] = Inr [83, 71, 107, 61]"
    by (simp add: encode_def btoa_def b64_char_def b64_alphabet_def)
  from decode_encode_roundtrip [of "[72, 105]"] enc show ?thesis
    by auto
qed

section \<open>The quantiser\<close>

lemma trunc_bounds: "of_int a \<le> c \<Longrightarrow> c \<le> of_int b \<Longrightarrow> a \<le> trunc c \<and> trunc c \<le> b"
  by (auto simp: trunc_def le_floor_iff floor_le_iff ceiling_le_iff le_ceiling_iff)

lemma trunc_error: "\<bar>of_int (trunc c) - c\<bar> < 1"
  unfolding trunc_def by (auto simp: abs_less_iff) linarith+

lemma trunc_of_int [simp]: "trunc (of_int n) = n"
  by (simp add: trunc_def)

lemma clamp_finite:
  "Math_max (Fin (- 32768)) (Math_min (Fin 32767) (Fin x)) = Fin (max (- 32768) (min 32767 x))"
  by (auto simp: Math_max_def Math_min_def max_def min_def)

lemma quantize_sample_float32:
  assumes "is_float32 r"
  shows "sint (quantize_sample (Fin r)) = trunc (max (- 32768) (min 32767 (r * 32768)))"
proof -
  let ?c = "max (- 32768) (min 32767 (r * 32768))"
  have "of_int (- 32768) \<le> ?c" "?c \<le> of_int 32767" by simp_all
  then have "- 32768 \<le> trunc ?c \<and> trunc ?c \<le> 32767"
    by (rule trunc_bounds)
  then have "sint (word_of_int (trunc ?c) :: 16 word) = trunc ?c"
    by (simp add: sint_to_int16)
  then show ?thesis
    by (simp add: quantize_sample_def float32_times_32768 [OF assms] clamp_finite)
qed

text \<open>
  Claim C4, amended. For every finite sample \<open>s\<close> of a \<^verbatim>\<open>Float32Array\<close>, the quantising
  loop maps \<open>s\<close> to \<open>s * 32768\<close> clamped to \<open>[-32768, 32767]\<close> and then truncated toward
  zero (it does not round to the nearest integer); the clamp saturates, so
  \<^verbatim>\<open>quantize([2.0]) == [32767]\<close>, \<^verbatim>\<open>quantize([-2.0]) == [-32768]\<close> and
  \<^verbatim>\<open>quantize([0.0]) == [0]\<close>.
\<close>

theorem quantize_truncates:
  "(\<forall>r\<in>set rs. is_float32 r) \<longrightarrow>
     map sint (quantize (map Fin rs))
       = map (\<lambda>r. trunc (max (- 32768) (min 32767 (r * 32768)))) rs"
  by (simp add: quantize_def quantize_sample_float32)

lemma dyadic_float32:
  assumes "\<bar>m\<bar> < 2 ^ 24" "- 149 \<le> e" "e \<le> 100"
  shows "is_float32 (of_int m * pow2 e)"
proof -
  have "\<bar>of_int m :: rat\<bar> < of_int (2 ^ 24)"
    using assms(1) by (simp only: of_int_abs [symmetric] of_int_less_iff)
  then have "\<bar>of_int m * pow2 e\<bar> < 2 ^ 24 * pow2 e"
    by (simp add: abs_mult)
  also have "\<dots> = pow2 (24 + e)"
    by (simp add: pow2_add) (simp add: pow2_def)
  also have "\<dots> \<le> pow2 124" using assms(3) by (intro pow2_mono) simp
  also have "\<dots> < pow2 128" by (rule pow2_strict_mono) simp
  finally show ?thesis
    unfolding is_float32_def fl32_def using assms by (intro fl_round_exact [of _ m e]) simp_all
qed

lemma is_float32_examples:
  "is_float32 2" "is_float32 (- 2)" "is_float32 0" "is_float32 (3 / 131072)"
  using dyadic_float32 [of 2 0] dyadic_float32 [of "- 2" 0] dyadic_float32 [of 0 0]
    dyadic_float32 [of 3 "- 17"]
  by (simp_all add: pow2_def)

theorem quantize_truncates_witness:
  "is_float32 2 \<and> is_float32 (- 2) \<and> is_float32 0 \<and> is_float32 (3 / 131072) \<and>
   map sint (quantize [Fin 2, Fin (- 2), Fin 0, Fin (3 / 131072)]) = [32767, - 32768, 0, 0]"
proof -
  have f: "\<forall>r\<in>set [2, - 2, 0, 3 / 131072]. is_float32 r"
    by (simp add: is_float32_examples)
  have "map sint (quantize (map Fin [2, - 2, 0, 3 / 131072]))
      = map (\<lambda>r. trunc (max (- 32768) (min 32767 (r * 32768)))) [2, - 2, 0, 3 / 131072]"
    using quantize_truncates [of "[2, - 2, 0, 3 / 131072]"] f by blast
  then show ?thesis using f by (simp add: trunc_def floor_eq_iff)
qed

theorem quantize_rounds_counterexample:
  "is_float32 (3 / 131072) \<and> map sint (quantize [Fin (3 / 131072)]) = [0]
   \<and> quantize_spec (3 / 131072) = 1
   \<and> map sint (quantize [Fin (3 / 131072)]) \<noteq> [quantize_spec (3 / 131072)]"
proof -
  have 1: "is_float32 (3 / 131072)" by (rule is_float32_examples)
  have 2: "map sint (quantize [Fin (3 / 131072)]) = [0]"
    by (simp add: quantize_def quantize_sample_float32 [OF 1] trunc_def floor_eq_iff)
  have 3: "quantize_spec (3 / 131072) = 1"
    by (simp add: quantize_spec_def round_def floor_eq_iff)
  from 1 2 3 show ?thesis by simp
qed

section \<open>Decoding inbound audio\<close>

lemma fl64_0 [simp]: "fl64 0 = Fin 0"
  by (simp add: fl64_def fl_round_def)

lemma fl64_1 [simp]: "fl64 1 = Fin 1"
  using fl64_int [of 1] by simp

lemma fl32_24000 [simp]: "fl32 24000 = Fin 24000"
  using fl32_int [of 24000] by simp

lemma supports_outputAudioContext [simp]: "supports_inbound (outputAudioContext now)"
  by (simp add: supports_inbound_def outputAudioContext_def)

lemma sint16_bound: "\<bar>sint (w :: 16 word)\<bar> \<le> 32768"
  using sint_ge [of w] sint_lt [of w] by simp

lemma createBuffer_inbound:
  assumes "supports_inbound ctx" and "0 < to_uint32 len"
  shows "createBuffer ctx (Fin 1) len (Fin 24000)
    = Inr \<lparr>sampleRate = Fin 24000, channels = [replicate (to_uint32 len) (Fin 0)]\<rparr>"
  using assms by (simp add: createBuffer_def supports_inbound_def trunc_def)

lemma decode_single_sample:
  assumes "supports_inbound ctx"
  shows "decodeAudioData (int16_bytes [w]) ctx (Fin 24000) 1
    = Inr \<lparr>sampleRate = Fin 24000, channels = [[Fin (of_int (sint w) / 32768)]]\<rparr>"
proof -
  have len: "js_length (int16_bytes [w]) = Fin 2"
    by (simp add: js_length_def int16_bytes_def)
  have frames: "js_div (js_div (Fin 2) (Fin 2)) (Fin (of_nat 1)) = Fin 1"
    by simp
  have buf: "createBuffer ctx (Fin 1) (Fin 1) (Fin 24000)
    = Inr \<lparr>sampleRate = Fin 24000, channels = [[Fin 0]]\<rparr>"
    using createBuffer_inbound [OF assms, of "Fin 1"] by (simp add: trunc_def)
  have smp: "dequantize_at [w] (Suc 0) 0 0 = Fin (of_int (sint w) / 32768)"
    using sample_exact [OF sint16_bound, of w] by (simp add: dequantize_at_def int16_get_def)
  show ?thesis
    unfolding decodeAudioData_def len frames Let_def
    by (simp add: js_eq_def isNaN_def buf fill_channel_def int16_bytes_single smp)
qed

text \<open>
  Claim C8. For every sample \<open>s\<close> of a \<^verbatim>\<open>Float32Array\<close> in \<open>[-1, 1]\<close>: quantising it as
  \<^verbatim>\<open>createBlob\<close> does and decoding the two bytes as \<^verbatim>\<open>decodeAudioData\<close> does gives a
  one-sample buffer whose sample differs from \<open>s\<close> by at most \<open>1/32768\<close>.
\<close>

theorem quantize_dequantize_error:
  assumes "supports_inbound ctx" and "is_float32 s" and "- 1 \<le> s" and "s \<le> 1"
  shows "\<exists>y. decodeAudioData (int16_bytes (quantize [Fin s])) ctx (Fin 24000) 1
              = Inr \<lparr>sampleRate = Fin 24000, channels = [[Fin y]]\<rparr>
            \<and> \<bar>y - s\<bar> \<le> 1 / 32768"
proof -
  define x where "x = s * 32768"
  define v where "v = trunc (max (- 32768) (min 32767 x))"
  have v: "sint (quantize_sample (Fin s)) = v"
    using assms(2) by (simp add: quantize_sample_float32 v_def x_def)
  have "\<bar>of_int v - x\<bar> \<le> 1"
  proof (cases "x \<le> 32767")
    case True
    moreover have "- 32768 \<le> x" using assms(3) by (simp add: x_def)
    ultimately have "v = trunc x" by (simp add: v_def)
    with trunc_error [of x] show ?thesis by simp
  next
    case False
    then have "v = trunc (of_int 32767)" by (simp add: v_def)
    then have "v = 32767" by (simp only: trunc_of_int)
    moreover have "x \<le> 32768" using assms(4) by (simp add: x_def)
    ultimately show ?thesis using False by simp
  qed
  then have "\<bar>of_int v / 32768 - s\<bar> \<le> 1 / 32768"
    by (simp add: x_def abs_le_iff field_simps)
  moreover have "decodeAudioData (int16_bytes (quantize [Fin s])) ctx (Fin 24000) 1
      = Inr \<lparr>sampleRate = Fin 24000, channels = [[Fin (of_int v / 32768)]]\<rparr>"
    using decode_single_sample [OF assms(1), of "quantize_sample (Fin s)"] v
    by (simp add: quantize_def)
  ultimately show ?thesis by blast
qed

theorem quantize_dequantize_error_witness:
  "supports_inbound (outputAudioContext (Fin 0)) \<and> is_float32 (3 / 131072)
   \<and> decodeAudioData (int16_bytes (quantize [Fin (3 / 131072)])) (outputAudioContext (Fin 0))
        (Fin 24000) 1 = Inr \<lparr>sampleRate = Fin 24000, channels = [[Fin 0]]\<rparr>
   \<and> \<bar>0 - 3 / 131072 :: rat\<bar> \<le> 1 / 32768"
proof -
  have f: "is_float32 (3 / 131072)" by (rule is_float32_examples)
  have q: "sint (quantize_sample (Fin (3 / 131072))) = 0"
    by (simp add: quantize_sample_float32 [OF f] trunc_def floor_eq_iff)
  from quantize_dequantize_error [of "outputAudioContext (Fin 0)" "3 / 131072"] f
  obtain y where "decodeAudioData (int16_bytes (quantize [Fin (3 / 131072)]))
      (outputAudioContext (Fin 0)) (Fin 24000) 1
      = Inr \<lparr>sampleRate = Fin 24000, channels = [[Fin y]]\<rparr>"
    by auto
  moreover have "decodeAudioData (int16_bytes (quantize [Fin (3 / 131072)]))
      (outputAudioContext (Fin 0)) (Fin 24000) 1
      = Inr \<lparr>sampleRate = Fin 24000, channels = [[Fin 0]]\<rparr>"
    using decode_single_sample [of "outputAudioContext (Fin 0)" "quantize_sample (Fin (3 / 131072))"] q
    by (simp add: quantize_def)
  ultimately show ?thesis using f by simp
qed

section \<open>The playback scheduler\<close>

lemma stop_idem [simp]: "stop now (stop now n) = stop now n"
  by (simp add: stop_def split: option.splits)

lemma stop_fields [simp]:
  "buffer (stop now n) = buffer n" "startTime (stop now n) = startTime n"
  "stopped (stop now n) \<noteq> None"
  by (simp_all add: stop_def split: option.splits)

lemma stop_unstopped: "stopped n = None \<Longrightarrow> stop now n = n\<lparr>stopped := Some now\<rparr>"
  by (simp add: stop_def)

lemma sweep_Nil [simp]: "sweep now [] this = this"
  by (simp add: sweep_def)

lemma sweep_Cons [simp]:
  "sweep now (x # xs) this =
     sweep now xs (this\<lparr>nodes := (nodes this)[x := stop now (nodes this ! x)],
                        sources := removeAll x (sources this)\<rparr>)"
  by (simp add: sweep_def)

lemma onInterrupt_sweep: "onInterrupt this now = (sweep now (sources this) this)\<lparr>nextStartTime := Fin 0\<rparr>"
  by (simp add: onInterrupt_def sweep_def)

lemma sweep_sources: "sources (sweep now xs this) = filter (\<lambda>x. x \<notin> set xs) (sources this)"
  by (induction xs arbitrary: this) (auto simp: removeAll_filter_not_eq intro: filter_cong)

lemma sweep_length_nodes [simp]: "length (nodes (sweep now xs this)) = length (nodes this)"
  by (induction xs arbitrary: this) simp_all

lemma sweep_nodes:
  "i < length (nodes this) \<Longrightarrow>
   nodes (sweep now xs this) ! i = (if i \<in> set xs then stop now (nodes this ! i) else nodes this ! i)"
proof (induction xs arbitrary: this)
  case Nil
  then show ?case by simp
next
  case (Cons x xs)
  let ?s = "this\<lparr>nodes := (nodes this)[x := stop now (nodes this ! x)],
                  sources := removeAll x (sources this)\<rparr>"
  have "i < length (nodes ?s)" using Cons.prems by simp
  from Cons.IH [OF this] Cons.prems show ?case
    by (cases "i = x") (auto simp: nth_list_update)
qed

lemma sweep_other_fields [simp]:
  "isRecording (sweep now xs this) = isRecording this"
  "status (sweep now xs this) = status this"
  "nextStartTime (sweep now xs this) = nextStartTime this"
  by (induction xs arbitrary: this) simp_all

lemma onInterrupt_sources [simp]: "sources (onInterrupt this now) = []"
  by (simp add: onInterrupt_sweep sweep_sources)

lemma onInterrupt_nextStartTime [simp]: "nextStartTime (onInterrupt this now) = Fin 0"
  by (simp add: onInterrupt_sweep)

lemma onInterrupt_length_nodes [simp]: "length (nodes (onInterrupt this now)) = length (nodes this)"
  by (simp add: onInterrupt_sweep)

lemma onInterrupt_nodes:
  "i < length (nodes this) \<Longrightarrow>
   nodes (onInterrupt this now) ! i
     = (if i \<in> set (sources this) then stop now (nodes this ! i) else nodes this ! i)"
  by (simp add: onInterrupt_sweep sweep_nodes)

lemma onInterrupt_buffer:
  "i < length (nodes this) \<Longrightarrow> buffer (nodes (onInterrupt this now) ! i) = buffer (nodes this ! i)"
  by (simp add: onInterrupt_nodes)

text \<open>A source that is stopped while it is still scheduled is never active.\<close>

lemma js_lt_trans_le: "\<not> js_le now t \<Longrightarrow> js_lt now s \<Longrightarrow> t \<noteq> NaN \<Longrightarrow> js_lt t s"
  by (cases now; cases t; cases s) auto

lemma stopped_while_scheduled:
  assumes "stopped n = None" and "phase_at n now = Scheduled"
  shows "phase_at (stop now n) t \<noteq> Active"
proof -
  from assms have lt: "js_lt now (startTime n)"
    by (simp add: phase_at_def natural_phase_def split: if_splits)
  have n': "stop now n = n\<lparr>stopped := Some now\<rparr>"
    using assms(1) by (rule stop_unstopped)
  have sched: "natural_phase (n\<lparr>stopped := Some now\<rparr>) now = Scheduled"
    using lt by (simp add: natural_phase_def)
  show ?thesis
  proof (cases "js_le now t")
    case True
    then show ?thesis by (simp add: n' phase_at_def sched)
  next
    case False
    show ?thesis
    proof (cases "t = NaN")
      case True
      then show ?thesis by (simp add: n' phase_at_def natural_phase_def)
    next
      case nn: False
      from False lt nn have "js_lt t (startTime n)" by (rule js_lt_trans_le)
      then show ?thesis using False by (simp add: n' phase_at_def natural_phase_def)
    qed
  qed
qed

lemma play_Inr:
  assumes "play this audioBuffer = Inr this'"
  obtains t where "nextStartTime this = Fin t" "0 \<le> t"
    "this' = this\<lparr>nodes := nodes this @
                    [\<lparr>buffer = audioBuffer, startTime = Fin t, stopped = None\<rparr>],
               nextStartTime := js_add (Fin t) (duration audioBuffer),
               sources := sources this @ [length (nodes this)]\<rparr>"
  using assms by (auto simp: play_def split: jsnum.splits if_splits)

lemma Math_max_finite [simp]: "Math_max (Fin a) (Fin b) = Fin (max a b)"
  by (auto simp: Math_max_def max_def)

lemma play_finite:
  assumes "nextStartTime this = Fin t" and "0 \<le> t"
  shows "play this audioBuffer =
     Inr (this\<lparr>nodes := nodes this @
                    [\<lparr>buffer = audioBuffer, startTime = Fin t, stopped = None\<rparr>],
               nextStartTime := js_add (Fin t) (duration audioBuffer),
               sources := sources this @ [length (nodes this)]\<rparr>)"
  using assms by (simp add: play_def)

text \<open>\<^verbatim>\<open>onmessage\<close> is its two parts with nothing in between.\<close>

lemma onmessage_steps:
  "onmessage this ctx message =
     (case onmessage_begin this ctx message of
        (s, Returned e) \<Rightarrow> (s, e)
      | (s, Awaiting outcome) \<Rightarrow> onmessage_resume s ctx message outcome)"
  by (simp add: onmessage_def onmessage_begin_def onmessage_resume_def Let_def
      split: option.splits sum.splits)

text \<open>The handlers keep the invariant \<open>wf_state\<close>, which holds at construction.\<close>

lemma wf_initial: "wf_state initial_state"
  by (simp add: wf_state_def initial_state_def)

lemma wf_example: "wf_state example_state"
  by (simp add: wf_state_def example_state_def initial_state_def)

lemma wf_nextStartTime [simp]: "wf_state (this\<lparr>nextStartTime := t\<rparr>) = wf_state this"
  by (simp add: wf_state_def)

lemma wf_play:
  assumes "wf_state this" and "play this audioBuffer = Inr this'"
  shows "wf_state this'"
proof -
  from assms(2) obtain t where this': "this' = this\<lparr>nodes := nodes this @
        [\<lparr>buffer = audioBuffer, startTime = Fin t, stopped = None\<rparr>],
      nextStartTime := js_add (Fin t) (duration audioBuffer),
      sources := sources this @ [length (nodes this)]\<rparr>"
    by (rule play_Inr)
  from assms(1) have d: "distinct (sources this)"
    and a: "\<forall>x\<in>set (sources this). x < length (nodes this) \<and> stopped (nodes this ! x) = None"
    by (simp_all add: wf_state_def list_all_iff)
  from a have "length (nodes this) \<notin> set (sources this)" by auto
  with d a show ?thesis
    by (auto simp: this' wf_state_def list_all_iff nth_append)
qed

lemma wf_onInterrupt: "wf_state (onInterrupt this now)"
  by (simp add: wf_state_def)

lemma wf_play_update:
  "wf_state this \<Longrightarrow> play (this\<lparr>nextStartTime := t\<rparr>) audioBuffer = Inr this' \<Longrightarrow> wf_state this'"
  using wf_play [of "this\<lparr>nextStartTime := t\<rparr>" audioBuffer this'] by simp

lemma wf_onmessage: "wf_state this \<Longrightarrow> wf_state (fst (onmessage this ctx message))"
  by (auto simp: onmessage_def Let_def wf_onInterrupt
      split: option.splits sum.splits dest: wf_play_update)

lemma wf_onmessage_begin: "wf_state this \<Longrightarrow> wf_state (fst (onmessage_begin this ctx message))"
  by (auto simp: onmessage_begin_def Let_def wf_onInterrupt split: option.splits sum.splits)

lemma wf_onmessage_resume:
  "wf_state this \<Longrightarrow> wf_state (fst (onmessage_resume this ctx message outcome))"
  by (auto simp: onmessage_resume_def wf_onInterrupt split: sum.splits dest: wf_play)

lemma wf_on_ended: "wf_state this \<Longrightarrow> wf_state (on_ended this source)"
  by (auto simp: wf_state_def on_ended_def list_all_iff distinct_removeAll)

lemma onmessage_interrupted:
  assumes "interrupted message" and "onmessage this ctx message = (this', None)"
  shows "\<exists>s. this' = onInterrupt s (currentTime ctx)"
  using assms by (auto simp: onmessage_def Let_def split: option.splits sum.splits)

text \<open>
  Claim C3. After \<^verbatim>\<open>onInterrupt\<close>, \<^verbatim>\<open>sources\<close> is empty and \<^verbatim>\<open>nextStartTime\<close> is 0; every
  source that was in the set has been stopped at the clock reading of the call, and
  one that was still scheduled then is never active, at any clock reading. The
  interruption branch of \<^verbatim>\<open>onmessage\<close> leaves the same: an empty set and 0.
\<close>

theorem interrupt_stops_all:
  assumes "wf_state this"
  shows "sources (onInterrupt this now) = [] \<and> nextStartTime (onInterrupt this now) = Fin 0
    \<and> (\<forall>source\<in>set (sources this).
          stopped (nodes (onInterrupt this now) ! source) = Some now
          \<and> (phase_at (nodes this ! source) now = Scheduled
               \<longrightarrow> (\<forall>t. phase_at (nodes (onInterrupt this now) ! source) t \<noteq> Active)))
    \<and> (\<forall>message this'.
          interrupted message \<and> onmessage this ctx message = (this', None)
            \<longrightarrow> sources this' = [] \<and> nextStartTime this' = Fin 0)"
proof (intro conjI ballI allI impI)
  fix source
  assume "source \<in> set (sources this)"
  with assms have lt: "source < length (nodes this)"
    and un: "stopped (nodes this ! source) = None"
    by (simp_all add: wf_state_def list_all_iff)
  have n: "nodes (onInterrupt this now) ! source = stop now (nodes this ! source)"
    using lt \<open>source \<in> set (sources this)\<close> by (simp add: onInterrupt_nodes)
  show "stopped (nodes (onInterrupt this now) ! source) = Some now"
    by (simp add: n stop_unstopped [OF un])
  fix t
  assume "phase_at (nodes this ! source) now = Scheduled"
  with un show "phase_at (nodes (onInterrupt this now) ! source) t \<noteq> Active"
    unfolding n by (rule stopped_while_scheduled)
next
  fix message this'
  assume "interrupted message \<and> onmessage this ctx message = (this', None)"
  then obtain s where "this' = onInterrupt s (currentTime ctx)"
    using onmessage_interrupted by blast
  then show "sources this' = []" "nextStartTime this' = Fin 0" by simp_all
qed simp_all

theorem interrupt_stops_all_witness:
  "wf_state example_state \<and> sources example_state = [0]
   \<and> phase_at (nodes example_state ! 0) (Fin 1) = Scheduled
   \<and> sources (onInterrupt example_state (Fin 1)) = []
   \<and> nextStartTime (onInterrupt example_state (Fin 1)) = Fin 0
   \<and> stopped (nodes (onInterrupt example_state (Fin 1)) ! 0) = Some (Fin 1)
   \<and> phase_at (nodes (onInterrupt example_state (Fin 1)) ! 0) (Fin 2) \<noteq> Active"
proof -
  have s: "sources example_state = [0]"
    by (simp add: example_state_def)
  have p: "phase_at (nodes example_state ! 0) (Fin 1) = Scheduled"
    by (simp add: example_state_def phase_at_def natural_phase_def)
  from interrupt_stops_all [OF wf_example, of "Fin 1"] s p wf_example show ?thesis
    by simp
qed

lemma fl64_small [simp]: "fl64 2 = Fin 2" "fl64 3 = Fin 3"
  using fl64_int [of 2] fl64_int [of 3] by simp_all

lemma fl64_halves: "\<bar>n\<bar> < 2 ^ 53 \<Longrightarrow> fl64 (of_int n / 2) = Fin (of_int n / 2)"
proof -
  assume n: "\<bar>n\<bar> < 2 ^ 53"
  have x: "of_int n / 2 = of_int n * pow2 (- 1)" by (simp add: pow2_def)
  have "\<bar>of_int n :: rat\<bar> < of_int (2 ^ 53)"
    using n by (simp only: of_int_abs [symmetric] of_int_less_iff)
  then have "\<bar>of_int n / 2 :: rat\<bar> < 2 ^ 53" by simp
  also have "\<dots> = pow2 53" by (simp add: pow2_def)
  also have "\<dots> < pow2 1024" by (rule pow2_strict_mono) simp
  finally show ?thesis
    unfolding fl64_def using n by (intro fl_round_exact [OF x]) simp_all
qed

lemma fl64_9_2 [simp]: "fl64 (9 / 2) = Fin (9 / 2)" and fl64_3_2 [simp]: "fl64 (3 / 2) = Fin (3 / 2)"
  using fl64_halves [of 9] fl64_halves [of 3] by simp_all

text \<open>A chunk handled with nothing in between, at finite times.\<close>

lemma onmessage_audio:
  assumes "decode base64 = Inr bytes"
    and "decodeAudioData bytes ctx (Fin 24000) 1 = Inr audioBuffer"
    and "nextStartTime this = Fin a" and "currentTime ctx = Fin b" and "0 \<le> max a b"
  shows "onmessage this ctx \<lparr>audio = Some base64, interrupted = False\<rparr>
    = (this\<lparr>nodes := nodes this @
                [\<lparr>buffer = audioBuffer, startTime = Fin (max a b), stopped = None\<rparr>],
             nextStartTime := js_add (Fin (max a b)) (duration audioBuffer),
             sources := sources this @ [length (nodes this)]\<rparr>, None)"
  using assms by (auto simp: onmessage_def play_def max_def split: if_splits)











lemma is_double_int: "\<bar>n\<bar> < 2 ^ 53 \<Longrightarrow> is_double (of_int n)"
  by (simp add: is_double_def fl64_int)

section \<open>\<^verbatim>\<open>reset\<close>\<close>

lemma stopRecording_scheduler [simp]:
  "sources (stopRecording this) = sources this" "nodes (stopRecording this) = nodes this"
  "nextStartTime (stopRecording this) = nextStartTime this"
  "\<not> isRecording (stopRecording this)" "session (stopRecording this) = session this"
  "pendingTimeouts (stopRecording this) = pendingTimeouts this"
  by (simp_all add: stopRecording_def updateStatus_def)

text \<open>
  Claim C5, amended. \<^verbatim>\<open>reset\<close> does not stop or remove any source and does not change
  \<^verbatim>\<open>nextStartTime\<close>: it stops recording, closes the session if there is one and sets a
  timeout, and neither \<^verbatim>\<open>reset\<close> nor the callback of that timeout changes \<^verbatim>\<open>sources\<close>, a
  source node or \<^verbatim>\<open>nextStartTime\<close>.
\<close>

theorem reset_leaves_scheduler:
  "sources (reset this) = sources this \<and> nodes (reset this) = nodes this
   \<and> nextStartTime (reset this) = nextStartTime this
   \<and> \<not> isRecording (reset this)
   \<and> session (reset this) = map_option (\<lambda>_. SessionClosed) (session this)
   \<and> pendingTimeouts (reset this) = pendingTimeouts this + 1
   \<and> sources (reset_timeout this) = sources this \<and> nodes (reset_timeout this) = nodes this
   \<and> nextStartTime (reset_timeout this) = nextStartTime this"
  by (simp add: reset_def reset_timeout_def updateStatus_def Let_def split: option.splits)

theorem reset_leaves_scheduler_witness:
  "sources (reset example_state) = [0] \<and> nextStartTime (reset example_state) = Fin 3
   \<and> stopped (nodes (reset example_state) ! 0) = None
   \<and> sources (reset_timeout (reset example_state)) = [0]
   \<and> stopped (nodes (reset_timeout (reset example_state)) ! 0) = None
   \<and> nextStartTime (reset_timeout (reset example_state)) = Fin 3"
  using reset_leaves_scheduler [of example_state] reset_leaves_scheduler [of "reset example_state"]
  by (simp add: example_state_def)

text \<open>The claim as stated fails on a component with a scheduled source, reset at clock
  reading 7: the interruption would empty the set, but after \<^verbatim>\<open>reset\<close> the source is
  still in the set, not stopped, and \<^verbatim>\<open>nextStartTime\<close> is still 3, not 7.\<close>

theorem reset_counterexample:
  "sources (onInterrupt example_state (Fin 7)) = []
   \<and> sources (reset example_state) = [0]
   \<and> stopped (nodes (reset example_state) ! 0) = None
   \<and> nextStartTime (reset example_state) = Fin 3
   \<and> nextStartTime (reset example_state) \<noteq> currentTime (outputAudioContext (Fin 7))"
  by (simp add: reset_def Let_def example_state_def outputAudioContext_def)

section \<open>Inbound chunks have a positive duration\<close>

lemma fold_update_length [simp]: "length (fold (\<lambda>i ch. ch[i := f i]) xs ch) = length ch"
  by (induction xs arbitrary: ch) simp_all

lemma fill_channel_length [simp]:
  "length (fill_channel dataInt16 numChannels numFrames c channelData) = length channelData"
  by (simp add: fill_channel_def)

lemma to_uint32_less: "to_uint32 x < 2 ^ 32"
proof (cases x)
  case (Fin r)
  have "trunc r mod 2 ^ 32 < 2 ^ 32" by simp
  then show ?thesis unfolding Fin to_uint32.simps
    by (metis nat_less_numeral_power_cancel_iff)
qed simp_all

lemma createBuffer_Inr:
  assumes "createBuffer ctx numberOfChannels len rate = Inr b"
  shows "0 < to_uint32 len"
    and "channels b = replicate (to_uint32 numberOfChannels) (replicate (to_uint32 len) (Fin 0))"
    and "to_float32 rate = sampleRate b" and "0 < to_uint32 numberOfChannels"
  using assms by (auto simp: createBuffer_def split: jsnum.splits if_splits)

lemma decodeAudioData_inbound:
  assumes "decodeAudioData bytes ctx (Fin 24000) 1 = Inr audioBuffer"
  shows "sampleRate audioBuffer = Fin 24000"
    and "0 < buffer_length audioBuffer" and "buffer_length audioBuffer < 2 ^ 32"
proof -
  define numFrames where "numFrames = js_div (js_div (js_length bytes) (Fin 2)) (Fin (of_nat 1))"
  show "sampleRate audioBuffer = Fin 24000 "
    using assms createBuffer_Inr(3) [of ctx _ _ "Fin 24000"]
    by (auto simp: decodeAudioData_def Let_def js_or_def split: if_splits sum.splits)
  consider (silent) "createBuffer ctx (Fin 1) (Fin 1) (Fin 24000) = Inr audioBuffer"
    | (frames) buffer where "createBuffer ctx (Fin 1) numFrames (Fin 24000) = Inr buffer"
        "audioBuffer = buffer\<lparr>channels :=
           map (\<lambda>c. fill_channel (int16_view bytes) 1 numFrames c (channels buffer ! c)) [0..<1]
           @ drop 1 (channels buffer)\<rparr>"
    using assms
    by (auto simp: decodeAudioData_def Let_def js_or_def numFrames_def split: if_splits sum.splits)
  then have "0 < buffer_length audioBuffer \<and> buffer_length audioBuffer < 2 ^ 32"
  proof cases
    case silent
    from createBuffer_Inr(1,2) [OF this] to_uint32_less [of "Fin 1"] show ?thesis
      by (simp add: buffer_length_def trunc_def)
  next
    case frames
    from createBuffer_Inr(1,2) [OF frames(1)] to_uint32_less [of numFrames] show ?thesis
      by (simp add: frames(2) buffer_length_def trunc_def)
  qed
  then show "0 < buffer_length audioBuffer" "buffer_length audioBuffer < 2 ^ 32" by simp_all
qed

lemma inbound_duration_pos:
  assumes "0 < n" and "n < 2 ^ 32"
  shows "\<exists>d. fl64 (of_nat n / 24000) = Fin d \<and> 0 < d"
proof -
  let ?x = "of_nat n / 24000 :: rat"
  have n1: "(1::rat) \<le> of_nat n" using assms(1) by simp
  have n2: "(of_nat n :: rat) \<le> 2 ^ 32"
    using assms(2) by (metis less_imp_le of_nat_le_iff of_nat_numeral of_nat_power)
  have pos: "0 < ?x" using assms(1) by simp
  have "pow2 (- 15) = 1 / 32768" by (simp add: pow2_def)
  also have "\<dots> \<le> ?x" using n1 by (simp add: field_simps)
  finally have lo: "pow2 (- 15) \<le> ?x" .
  have "?x \<le> of_nat n" using n1 by (simp add: field_simps)
  also have "\<dots> \<le> pow2 32" using n2 by (simp add: pow2_def)
  finally have hi: "?x \<le> pow2 32" .
  obtain y where "fl_round 53 (- 1074) 1024 ?x = Fin y" "pow2 (- 15) \<le> y"
    using fl_round_bounds [OF pos lo hi, of "- 1074" 1024 53] by auto
  moreover have "0 < pow2 (- 15)" by simp
  ultimately show ?thesis unfolding fl64_def by (metis less_le_trans)
qed

lemma inbound_buffer_duration:
  assumes "decodeAudioData bytes ctx (Fin 24000) 1 = Inr audioBuffer"
  shows "\<exists>d. duration audioBuffer = Fin d \<and> 0 < d"
  using decodeAudioData_inbound [OF assms] inbound_duration_pos [of "buffer_length audioBuffer"]
  by (simp add: duration_def)

lemma decode_empty: "decode [] = Inr []"
  by (simp add: decode_def atob_def strip_padding_def)

lemma decodeAudioData_empty:
  "supports_inbound ctx \<Longrightarrow> decodeAudioData [] ctx (Fin 24000) 1 = Inr (silence 1)"
  using createBuffer_inbound [of ctx "Fin 1"]
  by (simp add: decodeAudioData_def js_length_def js_eq_def js_or_def silence_def trunc_def)

text \<open>A chunk of a single byte has half a frame: \<^verbatim>\<open>createBuffer\<close> is asked for a buffer
  of no frame and throws, so no source node is made for it.\<close>

lemma decodeAudioData_one_byte: "decodeAudioData [b] ctx (Fin 24000) 1 = Inl NotSupportedError"
proof -
  have "fl64 (1 / 2) = Fin (1 / 2)" using fl64_halves [of 1] by simp
  then have "js_div (js_div (js_length [b]) (Fin 2)) (Fin (of_nat 1)) = Fin (1 / 2)"
    by (simp add: js_length_def)
  then show ?thesis
    by (simp add: decodeAudioData_def js_eq_def isNaN_def createBuffer_def trunc_def)
qed

lemma onmessage_new_nodes:
  assumes "onmessage this ctx message = (this', e)"
    and "length (nodes this) \<le> i" and "i < length (nodes this')"
  shows "\<exists>bytes. decodeAudioData bytes ctx (Fin 24000) 1 = Inr (buffer (nodes this' ! i))"
proof -
  consider (same) "length (nodes this') = length (nodes this)"
    | (played) bytes audioBuffer s where
        "decodeAudioData bytes ctx (Fin 24000) 1 = Inr audioBuffer"
        "play (this\<lparr>nextStartTime := Math_max (nextStartTime this) (currentTime ctx)\<rparr>) audioBuffer = Inr s"
        "this' = s \<or> this' = onInterrupt s (currentTime ctx)"
    using assms(1)
    by (auto simp: onmessage_def Let_def split: option.splits sum.splits if_splits)
  then show ?thesis
  proof cases
    case same
    with assms(2,3) show ?thesis by simp
  next
    case played
    from played(2) obtain t where s: "s = (this\<lparr>nextStartTime := Math_max (nextStartTime this) (currentTime ctx)\<rparr>)
        \<lparr>nodes := nodes this @ [\<lparr>buffer = audioBuffer, startTime = Fin t, stopped = None\<rparr>],
         nextStartTime := js_add (Fin t) (duration audioBuffer),
         sources := sources this @ [length (nodes this)]\<rparr>"
      by (rule play_Inr) simp
    then have len: "length (nodes s) = Suc (length (nodes this))"
      and b: "buffer (nodes s ! length (nodes this)) = audioBuffer"
      by simp_all
    from played(3) have "length (nodes this') = length (nodes s)" by auto
    with assms(2,3) len have i: "i = length (nodes this)" by simp
    from played(3) have "buffer (nodes this' ! i) = buffer (nodes s ! i)"
      using len i by (auto simp: onInterrupt_buffer)
    with b i played(1) show ?thesis by auto
  qed
qed

text \<open>
  Claim C10. An empty inbound byte sequence is decoded without failure (on a context
  that supports one channel at 24000 Hz) to a silent buffer of one frame; every buffer
  that \<^verbatim>\<open>decodeAudioData\<close> returns for an inbound chunk has a strictly positive duration,
  and so has the buffer of every source node that \<^verbatim>\<open>onmessage\<close> creates.
\<close>

theorem empty_chunk_silent_frame:
  "decode [] = Inr []
   \<and> (supports_inbound ctx \<longrightarrow>
        decodeAudioData [] ctx (Fin 24000) 1
          = Inr \<lparr>sampleRate = Fin 24000, channels = [[Fin 0]]\<rparr>)
   \<and> (\<forall>bytes audioBuffer. decodeAudioData bytes ctx (Fin 24000) 1 = Inr audioBuffer
        \<longrightarrow> (\<exists>d. duration audioBuffer = Fin d \<and> 0 < d))
   \<and> (\<forall>this message this' e i.
        onmessage this ctx message = (this', e) \<and> length (nodes this) \<le> i
          \<and> i < length (nodes this')
        \<longrightarrow> (\<exists>d. duration (buffer (nodes this' ! i)) = Fin d \<and> 0 < d))"
proof (intro conjI allI impI)
  show "decode [] = Inr []" by (rule decode_empty)
next
  assume "supports_inbound ctx"
  then show "decodeAudioData [] ctx (Fin 24000) 1
      = Inr \<lparr>sampleRate = Fin 24000, channels = [[Fin 0]]\<rparr>"
    using decodeAudioData_empty [of ctx] by (simp add: silence_def)
next
  fix bytes audioBuffer
  assume "decodeAudioData bytes ctx (Fin 24000) 1 = Inr audioBuffer"
  then show "\<exists>d. duration audioBuffer = Fin d \<and> 0 < d"
    by (rule inbound_buffer_duration)
next
  fix this message this' e i
  assume "onmessage this ctx message = (this', e) \<and> length (nodes this) \<le> i
          \<and> i < length (nodes this')"
  then obtain bytes where "decodeAudioData bytes ctx (Fin 24000) 1 = Inr (buffer (nodes this' ! i))"
    using onmessage_new_nodes by blast
  then show "\<exists>d. duration (buffer (nodes this' ! i)) = Fin d \<and> 0 < d"
    by (rule inbound_buffer_duration)
qed

theorem empty_chunk_silent_frame_witness:
  "supports_inbound (outputAudioContext (Fin 0))
   \<and> decodeAudioData [] (outputAudioContext (Fin 0)) (Fin 24000) 1
       = Inr \<lparr>sampleRate = Fin 24000, channels = [[Fin 0]]\<rparr>
   \<and> (\<exists>d. duration \<lparr>sampleRate = Fin 24000, channels = [[Fin 0]]\<rparr> = Fin d \<and> 0 < d)"
  using empty_chunk_silent_frame [of "outputAudioContext (Fin 0)"]
  by (metis supports_outputAudioContext)

section \<open>The empty chunk\<close>

text \<open>One frame at 24000 Hz lasts \<open>1/24000\<close> s, rounded to the nearest double.\<close>

lemma frame_duration:
  "duration (silence 1) = Fin (6148914691236517 / 147573952589676412928)"
  "duration (silence (Suc 0)) = Fin (6148914691236517 / 147573952589676412928)"
proof -
  have "fl64 (1 / 24000) = Fin (6148914691236517 / 147573952589676412928)"
    unfolding fl64_def
    using fl_round_nearest [of "- 67" 53 "1 / 24000" 6148914691236517 "- 1074" 1024]
    by (simp add: pow2_def)
  then show "duration (silence 1) = Fin (6148914691236517 / 147573952589676412928)"
    "duration (silence (Suc 0)) = Fin (6148914691236517 / 147573952589676412928)"
    by (simp_all add: duration_def silence_def buffer_length_def)
qed

lemma is_double_frame_duration: "is_double (6148914691236517 / 147573952589676412928)"
proof -
  have "fl_round 53 (- 1074) 1024 (6148914691236517 / 147573952589676412928)
      = Fin (6148914691236517 / 147573952589676412928)"
    by (rule fl_round_exact [of _ 6148914691236517 "- 67"]) (simp_all add: pow2_def)
  then show ?thesis by (simp add: is_double_def fl64_def)
qed

text \<open>
  Claim C7, amended. The buffer the handler schedules for an empty chunk does not have
  zero duration: \<^verbatim>\<open>decodeAudioData\<close> gives the silent buffer of one frame, which lasts
  \<open>1/24000\<close> s (rounded to a double). The unit is still scheduled: when the handler
  resumes with \<^verbatim>\<open>nextStartTime = t\<close>, not negative, the source is started at \<open>t\<close> and joins
  the set, and \<^verbatim>\<open>nextStartTime\<close> becomes \<open>t\<close> plus the duration of the frame (after which
  the interruption branch runs, if the same message is flagged); with nothing in between,
  \<open>t\<close> is \<open>max(nextStartTime, now)\<close>.
\<close>

theorem empty_chunk_scheduled:
  "supports_inbound ctx \<and> audio message = Some base64 \<and> decode base64 = Inr [] \<longrightarrow>
     onmessage_begin this ctx message
       = (this\<lparr>nextStartTime := Math_max (nextStartTime this) (currentTime ctx)\<rparr>,
          Awaiting (Inr (silence 1)))
     \<and> duration (silence 1) = Fin (6148914691236517 / 147573952589676412928)
     \<and> (\<forall>s2 ctx2 t. nextStartTime s2 = Fin t \<and> 0 \<le> t \<longrightarrow>
          onmessage_resume s2 ctx2 message (Inr (silence 1))
            = (let s3 = s2\<lparr>nodes := nodes s2 @
                              [\<lparr>buffer = silence 1, startTime = Fin t, stopped = None\<rparr>],
                           nextStartTime := js_add (Fin t) (duration (silence 1)),
                           sources := sources s2 @ [length (nodes s2)]\<rparr>
               in if interrupted message then onInterrupt s3 (currentTime ctx2) else s3,
               None))
     \<and> (\<forall>a b. nextStartTime this = Fin a \<and> currentTime ctx = Fin b \<and> 0 \<le> max a b
          \<and> \<not> interrupted message \<longrightarrow>
          onmessage this ctx message
            = (this\<lparr>nodes := nodes this @
                        [\<lparr>buffer = silence 1, startTime = Fin (max a b), stopped = None\<rparr>],
                     nextStartTime := js_add (Fin (max a b)) (duration (silence 1)),
                     sources := sources this @ [length (nodes this)]\<rparr>, None))"
proof
  assume h: "supports_inbound ctx \<and> audio message = Some base64 \<and> decode base64 = Inr []"
  then have d: "decodeAudioData [] ctx (Fin 24000) 1 = Inr (silence 1)"
    using decodeAudioData_empty by blast
  with h have 1: "onmessage_begin this ctx message
       = (this\<lparr>nextStartTime := Math_max (nextStartTime this) (currentTime ctx)\<rparr>,
          Awaiting (Inr (silence 1)))"
    by (simp add: onmessage_begin_def)
  have 2: "\<forall>s2 ctx2 t. nextStartTime s2 = Fin t \<and> 0 \<le> t \<longrightarrow>
          onmessage_resume s2 ctx2 message (Inr (silence 1))
            = (let s3 = s2\<lparr>nodes := nodes s2 @
                              [\<lparr>buffer = silence 1, startTime = Fin t, stopped = None\<rparr>],
                           nextStartTime := js_add (Fin t) (duration (silence 1)),
                           sources := sources s2 @ [length (nodes s2)]\<rparr>
               in if interrupted message then onInterrupt s3 (currentTime ctx2) else s3,
               None)"
    by (simp add: onmessage_resume_def play_finite Let_def)
  have 3: "\<forall>a b. nextStartTime this = Fin a \<and> currentTime ctx = Fin b \<and> 0 \<le> max a b
          \<and> \<not> interrupted message \<longrightarrow>
          onmessage this ctx message
            = (this\<lparr>nodes := nodes this @
                        [\<lparr>buffer = silence 1, startTime = Fin (max a b), stopped = None\<rparr>],
                     nextStartTime := js_add (Fin (max a b)) (duration (silence 1)),
                     sources := sources this @ [length (nodes this)]\<rparr>, None)"
  proof (intro allI impI)
    fix a b
    assume t: "nextStartTime this = Fin a \<and> currentTime ctx = Fin b \<and> 0 \<le> max a b
          \<and> \<not> interrupted message"
    have "message = \<lparr>audio = Some base64, interrupted = False\<rparr>"
      using h t by simp
    with h t d show "onmessage this ctx message
            = (this\<lparr>nodes := nodes this @
                        [\<lparr>buffer = silence 1, startTime = Fin (max a b), stopped = None\<rparr>],
                     nextStartTime := js_add (Fin (max a b)) (duration (silence 1)),
                     sources := sources this @ [length (nodes this)]\<rparr>, None)"
      using onmessage_audio [of base64 "[]" ctx "silence 1" this a b] by simp
  qed
  from 1 2 3 frame_duration(1) show "onmessage_begin this ctx message
       = (this\<lparr>nextStartTime := Math_max (nextStartTime this) (currentTime ctx)\<rparr>,
          Awaiting (Inr (silence 1)))
     \<and> duration (silence 1) = Fin (6148914691236517 / 147573952589676412928)
     \<and> (\<forall>s2 ctx2 t. nextStartTime s2 = Fin t \<and> 0 \<le> t \<longrightarrow>
          onmessage_resume s2 ctx2 message (Inr (silence 1))
            = (let s3 = s2\<lparr>nodes := nodes s2 @
                              [\<lparr>buffer = silence 1, startTime = Fin t, stopped = None\<rparr>],
                           nextStartTime := js_add (Fin t) (duration (silence 1)),
                           sources := sources s2 @ [length (nodes s2)]\<rparr>
               in if interrupted message then onInterrupt s3 (currentTime ctx2) else s3,
               None))
     \<and> (\<forall>a b. nextStartTime this = Fin a \<and> currentTime ctx = Fin b \<and> 0 \<le> max a b
          \<and> \<not> interrupted message \<longrightarrow>
          onmessage this ctx message
            = (this\<lparr>nodes := nodes this @
                        [\<lparr>buffer = silence 1, startTime = Fin (max a b), stopped = None\<rparr>],
                     nextStartTime := js_add (Fin (max a b)) (duration (silence 1)),
                     sources := sources this @ [length (nodes this)]\<rparr>, None))"
    by (simp only: simp_thms)
qed

text \<open>The empty chunk at clock reading 5, on the component as constructed: the handler
  raises \<^verbatim>\<open>nextStartTime\<close> to 5 and awaits the buffer of one frame; resumed, it starts
  the source at 5, and \<^verbatim>\<open>nextStartTime\<close> becomes 5 plus the duration of the frame.\<close>

theorem empty_chunk_scheduled_witness:
  "supports_inbound (outputAudioContext (Fin 5)) \<and> decode [] = Inr []
   \<and> onmessage_begin initial_state (outputAudioContext (Fin 5))
         \<lparr>audio = Some [], interrupted = False\<rparr>
       = (initial_state\<lparr>nextStartTime := Fin 5\<rparr>, Awaiting (Inr (silence 1)))
   \<and> onmessage_resume (initial_state\<lparr>nextStartTime := Fin 5\<rparr>) (outputAudioContext (Fin 5))
         \<lparr>audio = Some [], interrupted = False\<rparr> (Inr (silence 1))
       = (initial_state\<lparr>nodes := [\<lparr>buffer = silence 1, startTime = Fin 5, stopped = None\<rparr>],
                        nextStartTime := js_add (Fin 5) (duration (silence 1)),
                        sources := [0]\<rparr>, None)
   \<and> onmessage initial_state (outputAudioContext (Fin 5)) \<lparr>audio = Some [], interrupted = False\<rparr>
       = (initial_state\<lparr>nodes := [\<lparr>buffer = silence 1, startTime = Fin 5, stopped = None\<rparr>],
                        nextStartTime := js_add (Fin 5) (duration (silence 1)),
                        sources := [0]\<rparr>, None)"
proof -
  let ?ctx = "outputAudioContext (Fin 5)"
  let ?m = "\<lparr>audio = Some [], interrupted = False\<rparr>"
  have i: "nodes initial_state = []" "sources initial_state = []"
    "nextStartTime initial_state = Fin 0"
    by (simp_all add: initial_state_def)
  have c: "currentTime ?ctx = Fin 5"
    by (simp add: outputAudioContext_def)
  have h: "supports_inbound ?ctx \<and> audio ?m = Some [] \<and> decode [] = Inr []"
    by (simp add: decode_empty)
  note t = empty_chunk_scheduled [of ?ctx ?m "[]" initial_state, THEN mp, OF h]
  from t have bg: "onmessage_begin initial_state ?ctx ?m
      = (initial_state\<lparr>nextStartTime := Fin 5\<rparr>, Awaiting (Inr (silence 1)))"
    by (simp add: i c)
  have "nextStartTime (initial_state\<lparr>nextStartTime := Fin 5\<rparr>) = Fin 5 \<and> (0::rat) \<le> 5"
    by simp
  from t [THEN conjunct2, THEN conjunct2, THEN conjunct1, rule_format, OF this, of ?ctx]
  have rs: "onmessage_resume (initial_state\<lparr>nextStartTime := Fin 5\<rparr>) ?ctx ?m (Inr (silence 1))
       = (initial_state\<lparr>nodes := [\<lparr>buffer = silence 1, startTime = Fin 5, stopped = None\<rparr>],
                        nextStartTime := js_add (Fin 5) (duration (silence 1)),
                        sources := [0]\<rparr>, None)"
    by (simp add: i Let_def)
  have "nextStartTime initial_state = Fin 0 \<and> currentTime ?ctx = Fin 5 \<and> 0 \<le> max (0::rat) 5
      \<and> \<not> interrupted ?m"
    by (simp add: i c)
  from t [THEN conjunct2, THEN conjunct2, THEN conjunct2, rule_format, OF this]
  have "onmessage initial_state ?ctx ?m
       = (initial_state\<lparr>nodes := [\<lparr>buffer = silence 1, startTime = Fin 5, stopped = None\<rparr>],
                        nextStartTime := js_add (Fin 5) (duration (silence 1)),
                        sources := [0]\<rparr>, None)"
    by (simp add: i)
  with h bg rs show ?thesis by (simp only: simp_thms)
qed

text \<open>
  The claim as stated fails on the empty chunk, handled at clock reading 0 with
  \<^verbatim>\<open>nextStartTime = 0\<close>: the buffer of the source has one frame, the source is active at
  clock reading 0, and \<^verbatim>\<open>nextStartTime\<close> is changed, from 0 to the duration of the frame.
\<close>

theorem empty_chunk_counterexample:
  "decode [] = Inr [] \<and> nextStartTime initial_state = Fin 0
   \<and> (\<exists>this'. onmessage initial_state (outputAudioContext (Fin 0))
                 \<lparr>audio = Some [], interrupted = False\<rparr> = (this', None)
        \<and> sources this' = [0]
        \<and> buffer (nodes this' ! 0) = silence 1
        \<and> duration (buffer (nodes this' ! 0)) \<noteq> Fin 0
        \<and> phase_at (nodes this' ! 0) (Fin 0) = Active
        \<and> nextStartTime this' = Fin (6148914691236517 / 147573952589676412928)
        \<and> nextStartTime this' \<noteq> nextStartTime initial_state)"
proof -
  have i: "nodes initial_state = []" "sources initial_state = []"
    "nextStartTime initial_state = Fin 0"
    by (simp_all add: initial_state_def)
  have add: "fl64 (6148914691236517 / 147573952589676412928)
      = Fin (6148914691236517 / 147573952589676412928)"
    using is_double_frame_duration by (simp add: is_double_def)
  have c: "currentTime (outputAudioContext (Fin 0)) = Fin 0"
    by (simp add: outputAudioContext_def)
  have d: "decodeAudioData [] (outputAudioContext (Fin 0)) (Fin 24000) 1 = Inr (silence 1)"
    using decodeAudioData_empty supports_outputAudioContext by blast
  have "onmessage initial_state (outputAudioContext (Fin 0))
          \<lparr>audio = Some [], interrupted = False\<rparr>
      = (initial_state\<lparr>nodes := [\<lparr>buffer = silence 1, startTime = Fin 0, stopped = None\<rparr>],
                       nextStartTime := Fin (6148914691236517 / 147573952589676412928),
                       sources := [0]\<rparr>, None)"
    using onmessage_audio [OF decode_empty d i(3) c] by (simp add: i frame_duration add)
  then show ?thesis
    by (simp add: decode_empty i frame_duration phase_at_def natural_phase_def add)
qed

section \<open>The resampler\<close>

lemma resampleLinear_floor:
  assumes "\<not> js_eq inputSr outputSr"
    and "Math_floor (js_div (js_length inputData) (js_div inputSr outputSr)) = Fin (of_nat k)"
    and "k < 2 ^ 53"
  shows "\<exists>ys. resampleLinear inputData inputSr outputSr = Inr ys \<and> length ys = k"
proof -
  have "int k < 2 ^ 53" using assms(3) by (metis of_nat_less_numeral_power_cancel_iff)
  then have "new_Float32Array (Fin (of_nat k)) = Inr (replicate k (Fin 0))"
    using trunc_of_int [of "int k"] by simp
  then show ?thesis
    using assms(1,2) by (simp add: resampleLinear_def Let_def)
qed

text \<open>
  The two divisions of the length computation, \<open>ratio = fl(\<rho>)\<close> and
  \<open>fl(n / ratio)\<close>: the result is within \<open>3 * 2^-53\<close>, relatively, of the exact \<open>n / \<rho>\<close>.
\<close>

lemma double_quotient_error:
  assumes "0 < \<rho>" and "pow2 (- 53) \<le> \<rho>" and "\<rho> \<le> pow2 53" and "n < 2 ^ 53"
  obtains \<rho>' y where "fl64 \<rho> = Fin \<rho>'" "0 < \<rho>'" "fl64 (of_nat n / \<rho>') = Fin y"
    "\<bar>y - of_nat n / \<rho>\<bar> \<le> 3 * (of_nat n / \<rho>) / 2 ^ 53"
proof -
  define q where "q = of_nat n / \<rho>"
  obtain \<rho>' where r: "fl_round 53 (- 1074) 1024 \<rho> = Fin \<rho>'" "pow2 (- 53) \<le> \<rho>'" "\<rho>' \<le> pow2 53"
    using fl_round_bounds [OF assms(1-3), of "- 1074" 1024 53] by auto
  have rpos: "0 < \<rho>'" using r(2) pow2_pos [of "- 53"] by linarith
  have "pow2 (- 1074 + int 53 - 1) \<le> pow2 (- 53)" by (rule pow2_mono) simp
  with assms(2) have "pow2 (- 1074 + int 53 - 1) \<le> \<rho>" by linarith
  from fl_round_error [OF assms(1) this _ r(1)] have re: "\<bar>\<rho>' - \<rho>\<bar> \<le> \<rho> / 2 ^ 53" by simp
  define x2 where "x2 = of_nat n / \<rho>'"
  have qx2: "x2 * (1 - 1 / 2 ^ 53) \<le> q \<and> q \<le> x2 * (1 + 1 / 2 ^ 53)"
  proof -
    have "\<rho>' - \<rho> \<le> \<rho> / 2 ^ 53" "\<rho> - \<rho>' \<le> \<rho> / 2 ^ 53"
      using re by linarith+
    then have b: "\<rho> * (1 - 1 / 2 ^ 53) \<le> \<rho>'" "\<rho>' \<le> \<rho> * (1 + 1 / 2 ^ 53)"
      by (simp_all add: algebra_simps)
    have x2nn: "0 \<le> x2" using rpos by (simp add: x2_def)
    have "x2 * (\<rho> * (1 - 1 / 2 ^ 53)) \<le> x2 * \<rho>'"
      using b(1) x2nn by (rule mult_left_mono)
    moreover have "x2 * \<rho>' \<le> x2 * (\<rho> * (1 + 1 / 2 ^ 53))"
      using b(2) x2nn by (rule mult_left_mono)
    moreover have "x2 * \<rho>' = q * \<rho>"
      using rpos assms(1) by (simp add: x2_def q_def)
    ultimately have "(x2 * (1 - 1 / 2 ^ 53)) * \<rho> \<le> q * \<rho>" "q * \<rho> \<le> (x2 * (1 + 1 / 2 ^ 53)) * \<rho>"
      by (simp_all add: mult.assoc mult.commute mult.left_commute)
    then show ?thesis
      using assms(1) by (simp only: mult_le_cancel_right_pos)
  qed
  have qnn: "0 \<le> q" using assms(1) by (simp add: q_def)
  show ?thesis
  proof (cases "n = 0")
    case True
    then have "fl64 (of_nat n / \<rho>') = Fin 0" by simp
    moreover have "\<bar>0 - of_nat n / \<rho>\<bar> \<le> 3 * (of_nat n / \<rho>) / 2 ^ 53"
      using True by simp
    ultimately show ?thesis using that [of \<rho>' 0] r(1) rpos by (simp add: fl64_def)
  next
    case False
    then have n1: "(1::rat) \<le> of_nat n" by simp
    have n2: "(of_nat n :: rat) \<le> pow2 53"
      using assms(4) by (simp add: pow2_def)
    have xpos: "0 < x2" using False rpos by (simp add: x2_def)
    have "pow2 (- 53) = 1 / pow2 53" using pow2_diff [of 0 53] by simp
    also have "\<dots> \<le> 1 / \<rho>'" using r(3) rpos by (simp add: frac_le)
    also have "\<dots> \<le> x2" using n1 rpos by (simp add: x2_def divide_right_mono)
    finally have lo: "pow2 (- 53) \<le> x2" .
    have "x2 \<le> pow2 53 / \<rho>'"
      using n2 rpos by (simp add: x2_def divide_right_mono)
    also have "\<dots> \<le> pow2 53 / pow2 (- 53)"
      using r(2) rpos by (intro divide_left_mono) simp_all
    also have "\<dots> = pow2 106" using pow2_diff [of 53 "- 53"] by simp
    finally have hi: "x2 \<le> pow2 106" .
    obtain y where y: "fl_round 53 (- 1074) 1024 x2 = Fin y"
      using fl_round_bounds [OF xpos lo hi, of "- 1074" 1024 53] by auto
    have "pow2 (- 1074 + int 53 - 1) \<le> pow2 (- 53)" by (rule pow2_mono) simp
    with lo have "pow2 (- 1074 + int 53 - 1) \<le> x2" by linarith
    from fl_round_error [OF xpos this _ y] have ye: "\<bar>y - x2\<bar> \<le> x2 / 2 ^ 53" by simp
    have y1: "y - x2 \<le> x2 / 2 ^ 53" "x2 - y \<le> x2 / 2 ^ 53"
      using ye by linarith+
    have q1: "x2 - x2 / 2 ^ 53 \<le> q" "q \<le> x2 + x2 / 2 ^ 53"
      using qx2 by (simp_all add: algebra_simps)
    have "y - q \<le> 3 * q / 2 ^ 53" "q - y \<le> 3 * q / 2 ^ 53"
      using y1 q1 qnn xpos by simp_all
    then have "\<bar>y - q\<bar> \<le> 3 * q / 2 ^ 53"
      by linarith
    then show ?thesis
      using that [of \<rho>' y] r(1) rpos y by (simp add: fl64_def x2_def q_def)
  qed
qed

lemma resample_output:
  assumes "0 < r1" and "0 < r2" and "r1 \<noteq> r2"
    and "pow2 (- 53) \<le> r1 / r2" and "r1 / r2 \<le> pow2 53"
    and "length x < 2 ^ 53" and "2 * (of_nat (length x) * r2 / r1) < 2 ^ 53"
  obtains ys y where "resampleLinear x (Fin r1) (Fin r2) = Inr ys" "length ys = nat \<lfloor>y\<rfloor>"
    "0 \<le> y" "\<bar>y - of_nat (length x) * r2 / r1\<bar> \<le> 3 * (of_nat (length x) * r2 / r1) / 2 ^ 53"
    "Math_floor (js_div (js_length x) (js_div (Fin r1) (Fin r2))) = Fin (of_nat (length ys))"
    "is_double (r1 / r2) \<longrightarrow> fl64 (of_nat (length x) * r2 / r1) = Fin y"
proof -
  define q where "q = of_nat (length x) * r2 / r1"
  have q: "of_nat (length x) / (r1 / r2) = q" by (simp add: q_def)
  have qnn: "0 \<le> q" using assms(1,2) by (simp add: q_def)
  have rpos: "0 < r1 / r2" using assms(1,2) by simp
  obtain \<rho>' y where d: "fl64 (r1 / r2) = Fin \<rho>'" "0 < \<rho>'" "fl64 (of_nat (length x) / \<rho>') = Fin y"
    "\<bar>y - q\<bar> \<le> 3 * q / 2 ^ 53"
    using double_quotient_error [OF rpos assms(4,5,6)] unfolding q by blast
  have y1: "q - y \<le> 3 * q / 2 ^ 53" "y - q \<le> 3 * q / 2 ^ 53"
    using d(4) by linarith+
  have ynn: "0 \<le> y" using y1 qnn by simp
  have "y < 2 ^ 53" using y1 qnn assms(7) unfolding q_def [symmetric] by simp
  then have "\<lfloor>y\<rfloor> < 2 ^ 53" by (simp add: floor_less_iff)
  then have k: "nat \<lfloor>y\<rfloor> < 2 ^ 53" using ynn by (simp add: nat_less_iff)
  have fl: "Math_floor (js_div (js_length x) (js_div (Fin r1) (Fin r2))) = Fin (of_nat (nat \<lfloor>y\<rfloor>))"
    using assms(2) d(1,2,3) ynn by (simp add: js_length_def)
  have "\<not> js_eq (Fin r1) (Fin r2)" using assms(3) by (simp add: js_eq_def)
  from resampleLinear_floor [OF this fl k] obtain ys
    where "resampleLinear x (Fin r1) (Fin r2) = Inr ys" "length ys = nat \<lfloor>y\<rfloor>" by blast
  moreover have "is_double (r1 / r2) \<longrightarrow> fl64 (of_nat (length x) * r2 / r1) = Fin y"
    using d(1,3) q by (auto simp: is_double_def q_def)
  ultimately show ?thesis
    using that [of ys y] ynn d(4) fl by (simp add: q_def)
qed

lemma createBlob_mimeType:
  "createBlob samples currentSampleRate = Inr b \<Longrightarrow> mimeType b = ''audio/pcm;rate=16000''"
  by (auto simp: createBlob_def split: sum.splits if_splits)

lemma createBlob_returns:
  assumes "1 \<le> r" and "r \<le> 2 ^ 20" and "length samples < 2 ^ 32"
  shows "\<exists>b. createBlob samples (Fin r) = Inr b"
proof -
  have "\<exists>ys. (if \<not> js_eq (Fin r) (Fin 16000) then resampleLinear samples (Fin r) (Fin 16000)
      else Inr samples) = Inr ys"
  proof (cases "r = 16000")
    case True
    then show ?thesis by (simp add: js_eq_def)
  next
    case False
    have n: "(of_nat (length samples) :: rat) < 2 ^ 32"
      using assms(3) by (metis of_nat_less_iff of_nat_numeral of_nat_power)
    have "(of_nat (length samples) * 16000 :: rat) / r \<le> of_nat (length samples) * 16000 / 1"
      using assms(1) by (intro divide_left_mono) simp_all
    then have "of_nat (length samples) * 16000 / r \<le> of_nat (length samples) * 16000"
      by simp
    then have 1: "2 * (of_nat (length samples) * 16000 / r) < 2 ^ 53"
      using n by simp
    have 2: "pow2 (- 53) \<le> r / 16000" using assms(1) by (simp add: pow2_def)
    have 3: "r / 16000 \<le> pow2 53" using assms(2) by (simp add: pow2_def)
    have 4: "length samples < 2 ^ 53" using assms(3) by simp
    have "0 < r" using assms(1) by simp
    from resample_output [OF this _ False 2 3 4 1] obtain ys
      where "resampleLinear samples (Fin r) (Fin 16000) = Inr ys" by auto
    with False show ?thesis by (simp add: js_eq_def)
  qed
  then obtain ys where ys: "(if \<not> js_eq (Fin r) (Fin 16000)
      then resampleLinear samples (Fin r) (Fin 16000) else Inr samples) = Inr ys" ..
  obtain t where "encode (int16_bytes (quantize ys)) = Inr t"
    using encode_total by blast
  with ys show ?thesis by (simp add: createBlob_def)
qed

text \<open>
  Claim C9. Whatever the samples and the input rate, a chunk that \<^verbatim>\<open>createBlob\<close> returns
  carries the one format tag \<^verbatim>\<open>audio/pcm;rate=16000\<close>, which names 16-bit PCM at
  16000 Hz; and \<^verbatim>\<open>createBlob\<close> does return a chunk for every buffer of fewer than
  \<open>2^32\<close> samples at every rate from 1 Hz to \<open>2^20\<close> Hz, among them 8000, 16000, 44100
  and 48000.
\<close>

theorem createBlob_format_tag:
  "(\<forall>b. createBlob samples currentSampleRate = Inr b \<longrightarrow> mimeType b = ''audio/pcm;rate=16000'')
   \<and> (1 \<le> r \<and> r \<le> 2 ^ 20 \<and> length samples < 2 ^ 32 \<longrightarrow>
        (\<exists>b. createBlob samples (Fin r) = Inr b \<and> mimeType b = ''audio/pcm;rate=16000''))"
  using createBlob_returns [of r samples] createBlob_mimeType by blast

theorem createBlob_format_tag_witness:
  "(\<exists>b. createBlob [Fin (1 / 2), Fin (- 1)] (Fin 8000) = Inr b \<and> mimeType b = ''audio/pcm;rate=16000'')
   \<and> (\<exists>b. createBlob [Fin (1 / 2), Fin (- 1)] (Fin 16000) = Inr b \<and> mimeType b = ''audio/pcm;rate=16000'')
   \<and> (\<exists>b. createBlob [Fin (1 / 2), Fin (- 1)] (Fin 44100) = Inr b \<and> mimeType b = ''audio/pcm;rate=16000'')
   \<and> (\<exists>b. createBlob [Fin (1 / 2), Fin (- 1)] (Fin 48000) = Inr b \<and> mimeType b = ''audio/pcm;rate=16000'')"
  using createBlob_format_tag [of "[Fin (1 / 2), Fin (- 1)]" _ 8000]
    createBlob_format_tag [of "[Fin (1 / 2), Fin (- 1)]" _ 16000]
    createBlob_format_tag [of "[Fin (1 / 2), Fin (- 1)]" _ 44100]
    createBlob_format_tag [of "[Fin (1 / 2), Fin (- 1)]" _ 48000]
  by simp

text \<open>
  Claim C6, amended. For positive integer rates \<open>r1 \<noteq> r2\<close> below \<open>2^53\<close> and an input
  with \<open>3 * len(x) * r2 < 2^53\<close>, \<^verbatim>\<open>resampleLinear\<close> returns an output whose length is
  \<^verbatim>\<open>floor(inputLength / ratio)\<close> with \<^verbatim>\<open>ratio = sourceRate / targetRate\<close>, both quotients
  rounded to binary64. That length is \<open>floor(len(x) * r2 / r1)\<close> or one less; it is
  \<open>floor(len(x) * r2 / r1)\<close> whenever \<open>r1\<close> does not divide \<open>len(x) * r2\<close>, and whenever
  \<open>r1 / r2\<close> is itself a binary64 value.
\<close>

theorem resample_length:
  "0 < r1 \<and> r1 < 2 ^ 53 \<and> 0 < r2 \<and> r2 < 2 ^ 53 \<and> r1 \<noteq> r2 \<and> 3 * (length x * r2) < 2 ^ 53 \<longrightarrow>
     (\<exists>ys. resampleLinear x (Fin (of_nat r1)) (Fin (of_nat r2)) = Inr ys
        \<and> Math_floor (js_div (js_length x) (js_div (Fin (of_nat r1)) (Fin (of_nat r2))))
            = Fin (of_nat (length ys))
        \<and> (length ys = length x * r2 div r1 \<or> Suc (length ys) = length x * r2 div r1)
        \<and> (\<not> r1 dvd length x * r2 \<or> is_double (of_nat r1 / of_nat r2)
             \<longrightarrow> length ys = length x * r2 div r1))"
proof
  assume h: "0 < r1 \<and> r1 < 2 ^ 53 \<and> 0 < r2 \<and> r2 < 2 ^ 53 \<and> r1 \<noteq> r2 \<and> 3 * (length x * r2) < 2 ^ 53"
  define N where "N = length x * r2"
  define m where "m = N div r1"
  define s where "s = N mod r1"
  define q :: rat where "q = of_nat N / of_nat r1"
  have N: "3 * N < 2 ^ 53" using h by (simp add: N_def)
  have R1: "(0::rat) < of_nat r1" "(1::rat) \<le> of_nat r1" "(of_nat r1 :: rat) < 2 ^ 53"
    using h by (simp_all add: Suc_le_eq [symmetric])
  have R2: "(0::rat) < of_nat r2" "(1::rat) \<le> of_nat r2" "(of_nat r2 :: rat) < 2 ^ 53"
    using h by (simp_all add: Suc_le_eq [symmetric])
  have NR: "(3 * of_nat N :: rat) < 2 ^ 53"
    using N by (metis of_nat_less_numeral_power_cancel_iff of_nat_mult of_nat_numeral)
  have qN: "q \<le> of_nat N"
  proof -
    have "(of_nat N :: rat) / of_nat r1 \<le> of_nat N / 1"
      using R1 by (intro divide_left_mono) simp_all
    then show ?thesis by (simp add: q_def)
  qed
  have qeq: "of_nat (length x) * of_nat r2 / of_nat r1 = q"
    by (simp add: q_def N_def)
  have c1: "(of_nat r1 :: rat) \<noteq> of_nat r2" using h by simp
  have c2: "pow2 (- 53) \<le> of_nat r1 / (of_nat r2 :: rat)"
  proof -
    have "pow2 (- 53) = 1 / 2 ^ 53" by (simp add: pow2_def)
    also have "\<dots> \<le> (1::rat) / of_nat r2" using R2 by (intro divide_left_mono) simp_all
    also have "\<dots> \<le> of_nat r1 / of_nat r2" using R1 R2 by (intro divide_right_mono) simp_all
    finally show ?thesis .
  qed
  have c3: "of_nat r1 / (of_nat r2 :: rat) \<le> pow2 53"
  proof -
    have "of_nat r1 / (of_nat r2 :: rat) \<le> of_nat r1 / 1"
      using R1 R2 by (intro divide_left_mono) simp_all
    also have "\<dots> \<le> pow2 53" using R1 by (simp add: pow2_def)
    finally show ?thesis .
  qed
  have "length x \<le> N" using h by (simp add: N_def)
  with N have c4: "length x < 2 ^ 53" by linarith
  have c5: "2 * (of_nat (length x) * of_nat r2 / of_nat r1 :: rat) < 2 ^ 53"
    unfolding qeq using qN NR by linarith
  obtain ys y where o: "resampleLinear x (Fin (of_nat r1)) (Fin (of_nat r2)) = Inr ys"
    "length ys = nat \<lfloor>y\<rfloor>" "0 \<le> y" "\<bar>y - q\<bar> \<le> 3 * q / 2 ^ 53"
    "Math_floor (js_div (js_length x) (js_div (Fin (of_nat r1)) (Fin (of_nat r2))))
       = Fin (of_nat (length ys))"
    "is_double (of_nat r1 / of_nat r2) \<longrightarrow> fl64 q = Fin y"
    using resample_output [OF R1(1) R2(1) c1 c2 c3 c4 c5] unfolding qeq by blast
  have close: "\<bar>y - q\<bar> < 1 / of_nat r1"
  proof -
    have "3 * q / 2 ^ 53 = (3 * of_nat N / 2 ^ 53) / of_nat r1"
      by (simp add: q_def)
    also have "\<dots> < 1 / of_nat r1"
      using NR R1 by (intro divide_strict_right_mono) simp_all
    finally show ?thesis using o(4) by linarith
  qed
  have Nm: "(of_nat N :: rat) = of_nat m * of_nat r1 + of_nat s"
    unfolding m_def s_def by (metis div_mult_mod_eq of_nat_add of_nat_mult)
  then have qm: "q = of_nat m + of_nat s / of_nat r1"
    using R1 by (simp add: q_def add_divide_distrib)
  have len_exact: "length ys = m" if "\<not> r1 dvd N \<or> is_double (of_nat r1 / of_nat r2)"
  proof (cases "r1 dvd N")
    case False
    then have "0 < s" "s < r1" using h by (simp_all add: s_def dvd_eq_mod_eq_0)
    then have "(1::rat) \<le> of_nat s" "(of_nat s :: rat) + 1 \<le> of_nat r1"
      by (simp_all add: Suc_le_eq [symmetric] flip: of_nat_Suc)
    then have "1 / of_nat r1 \<le> of_nat s / (of_nat r1 :: rat)"
      "of_nat s / (of_nat r1 :: rat) \<le> 1 - 1 / of_nat r1"
      using R1 by (simp_all add: field_simps)
    with close qm have "of_nat m < y" "y < of_nat m + 1" by linarith+
    then have "\<lfloor>y\<rfloor> = int m" by (simp add: floor_eq_iff)
    then show ?thesis by (simp add: o(2))
  next
    case True
    with that have d: "is_double (of_nat r1 / of_nat r2)" by simp
    from True have "s = 0" by (simp add: s_def)
    then have "q = of_nat m" by (simp add: qm)
    moreover have "m < 2 ^ 53"
    proof -
      have "m \<le> N" by (simp add: m_def)
      with N show ?thesis by linarith
    qed
    ultimately have "fl64 q = Fin (of_nat m)" by (simp add: fl64_nat)
    with o(6) d have "y = of_nat m" by simp
    then show ?thesis by (simp add: o(2))
  qed
  have len_near: "length ys = m \<or> Suc (length ys) = m"
  proof -
    have "s < r1" using h by (simp add: s_def)
    then have "(of_nat s :: rat) + 1 \<le> of_nat r1"
      by (simp add: Suc_le_eq [symmetric] flip: of_nat_Suc)
    then have "of_nat s / (of_nat r1 :: rat) + 1 / of_nat r1 \<le> 1"
      using R1 by (simp add: field_simps)
    moreover have "0 \<le> of_nat s / (of_nat r1 :: rat)" by simp
    moreover have "1 / (of_nat r1 :: rat) \<le> 1" using R1 by simp
    ultimately have a: "of_nat m - 1 < y" and b: "y < of_nat m + 1"
      using close qm by linarith+
    have "(of_int \<lfloor>y\<rfloor> :: rat) \<le> y" "y < of_int \<lfloor>y\<rfloor> + 1"
      by linarith+
    with a b have "(of_int \<lfloor>y\<rfloor> :: rat) < of_nat m + 1" "(of_nat m :: rat) - 1 < of_int \<lfloor>y\<rfloor> + 1"
      by linarith+
    then have "(of_int \<lfloor>y\<rfloor> :: rat) < of_int (int m + 1)"
      "(of_int (int m - 1) :: rat) < of_int (\<lfloor>y\<rfloor> + 1)"
      by simp_all
    then have 1: "\<lfloor>y\<rfloor> < int m + 1" and 2: "int m - 1 < \<lfloor>y\<rfloor> + 1"
      by (simp_all only: of_int_less_iff)
    have "0 \<le> \<lfloor>y\<rfloor>" using o(3) by simp
    with 1 2 show ?thesis unfolding o(2) by linarith
  qed
  show "\<exists>ys. resampleLinear x (Fin (of_nat r1)) (Fin (of_nat r2)) = Inr ys
        \<and> Math_floor (js_div (js_length x) (js_div (Fin (of_nat r1)) (Fin (of_nat r2))))
            = Fin (of_nat (length ys))
        \<and> (length ys = length x * r2 div r1 \<or> Suc (length ys) = length x * r2 div r1)
        \<and> (\<not> r1 dvd length x * r2 \<or> is_double (of_nat r1 / of_nat r2)
             \<longrightarrow> length ys = length x * r2 div r1)"
    using o(1,5) len_exact len_near unfolding m_def N_def by blast
qed

theorem resample_length_witness:
  "(\<exists>ys. resampleLinear [Fin 0, Fin 1, Fin (1 / 2), Fin (- 1), Fin 1, Fin 0] (Fin 48000) (Fin 16000)
            = Inr ys \<and> length ys = 2)
   \<and> (\<exists>ys. resampleLinear [Fin 0, Fin 1, Fin (1 / 2), Fin (- 1), Fin 1, Fin 0] (Fin 44100) (Fin 16000)
            = Inr ys \<and> length ys = 2)"
proof -
  have d: "is_double (of_nat 48000 / of_nat 16000)"
    using is_double_int [of 3] by simp
  have n: "\<not> (44100::nat) dvd length [Fin 0, Fin 1, Fin (1 / 2), Fin (- 1), Fin 1, Fin 0] * 16000"
    by simp
  from resample_length [of 48000 16000 "[Fin 0, Fin 1, Fin (1 / 2), Fin (- 1), Fin 1, Fin 0]"] d
  have 1: "\<exists>ys. resampleLinear [Fin 0, Fin 1, Fin (1 / 2), Fin (- 1), Fin 1, Fin 0] (Fin 48000) (Fin 16000)
            = Inr ys \<and> length ys = 2"
    by auto
  from resample_length [of 44100 16000 "[Fin 0, Fin 1, Fin (1 / 2), Fin (- 1), Fin 1, Fin 0]"] n
  have 2: "\<exists>ys. resampleLinear [Fin 0, Fin 1, Fin (1 / 2), Fin (- 1), Fin 1, Fin 0] (Fin 44100) (Fin 16000)
            = Inr ys \<and> length ys = 2"
    by auto
  from 1 2 show ?thesis by blast
qed

lemma ratio_3224: "fl64 (3224 / 16000) = Fin (907475324915155 / 4503599627370496)"
  unfolding fl64_def
  using fl_round_nearest [of "- 55" 53 "3224 / 16000" 7259802599321240 "- 1074" 1024]
  by (simp add: pow2_def)

lemma quotient_403:
  "fl64 (403 / (907475324915155 / 4503599627370496)) = Fin (8796093022207999 / 4398046511104)"
  unfolding fl64_def
  using fl_round_nearest [of "- 42" 53 "403 / (907475324915155 / 4503599627370496)"
      8796093022207999 "- 1074" 1024]
  by (simp add: pow2_def)

lemma floor_403: "\<lfloor>8796093022207999 / 4398046511104 :: rat\<rfloor> = 1999"
  by (simp add: floor_eq_iff)

lemma length_403:
  "Math_floor (js_div (js_length (replicate 403 (Fin 0))) (js_div (Fin 3224) (Fin 16000)))
     = Fin (of_nat 1999)"
proof -
  have "js_div (Fin 3224) (Fin 16000) = fl64 (3224 / 16000)" by simp
  then have 1: "js_div (Fin 3224) (Fin 16000) = Fin (907475324915155 / 4503599627370496)"
    by (simp only: ratio_3224)
  have "js_div (Fin 403) (Fin (907475324915155 / 4503599627370496))
      = fl64 (403 / (907475324915155 / 4503599627370496))" by simp
  then have 2: "js_div (Fin 403) (Fin (907475324915155 / 4503599627370496))
      = Fin (8796093022207999 / 4398046511104)"
    by (simp only: quotient_403)
  have 3: "js_length (replicate 403 (Fin 0)) = Fin 403" by (simp add: js_length_def)
  show ?thesis
    unfolding 1 3 2 Math_floor.simps floor_403 by simp
qed

text \<open>
  The claim as stated fails for 403 samples resampled from 3224 Hz to 16000 Hz: the
  exact quotient is 2000, the rounded ratio is a little above 0.2015, the rounded
  quotient a little below 2000, and the output has 1999 samples.
\<close>

theorem resample_length_counterexample:
  "(\<exists>ys. resampleLinear (replicate 403 (Fin 0)) (Fin 3224) (Fin 16000) = Inr ys
         \<and> length ys = 1999 \<and> int (length ys) \<noteq> resample_length_spec 403 3224 16000)
   \<and> resample_length_spec 403 3224 16000 = 2000"
proof -
  have "\<not> js_eq (Fin 3224) (Fin 16000)" by (simp add: js_eq_def)
  from resampleLinear_floor [OF this length_403]
  obtain ys where "resampleLinear (replicate 403 (Fin 0)) (Fin 3224) (Fin 16000) = Inr ys"
    "length ys = 1999"
    by auto
  moreover have "resample_length_spec 403 3224 16000 = 2000"
    by (simp add: resample_length_spec_def)
  ultimately show ?thesis by auto
qed

end
